theory Spec2Isabelle
  imports Main
begin

section \<open>Strings, numbers and the runtime\<close>

text \<open>
  A JavaScript string is a sequence of UTF-16 code units; \<open>str.length\<close> and
  \<open>str.slice\<close> count code units. A code unit is a natural number here, and
  \<open>js\<close> turns an ASCII literal into such a string.
\<close>

type_synonym jstr = "nat list"

definition js :: "string \<Rightarrow> jstr" where
  "js s = map of_char s"

text \<open>
  The numbers that reach the width arguments of the renderer are integers, or
  \<open>NaN\<close> (which \<open>0 / 0\<close> produces in the fair-share computation). Every
  comparison with \<open>NaN\<close> is false.
\<close>

datatype jsnum = Num int | NaN

fun le_num :: "jsnum \<Rightarrow> jsnum \<Rightarrow> bool" where
  "le_num (Num a) (Num b) = (a \<le> b)"
| "le_num _ _ = False"

fun lt_num :: "jsnum \<Rightarrow> jsnum \<Rightarrow> bool" where
  "lt_num (Num a) (Num b) = (a < b)"
| "lt_num _ _ = False"

definition ge_num :: "jsnum \<Rightarrow> jsnum \<Rightarrow> bool" where
  "ge_num a b = le_num b a"

definition gt_num :: "jsnum \<Rightarrow> jsnum \<Rightarrow> bool" where
  "gt_num a b = lt_num b a"

text \<open>Cell values, by the runtime kinds that \<open>formatValue\<close> and the numeric test tell apart.\<close>

datatype jsval =
    VNull
  | VUndefined
  | VString jstr
  | VNumber int
  | VBigInt int
  | VOther jstr

text \<open>
  What the renderer reads from the Bun runtime and the process:
  \<open>Bun.stringWidth\<close>, \<open>Bun.enableANSIColors\<close>, \<open>Bun.inspect\<close> (called with the
  colour flag and depth 2), \<open>process.stdout.columns\<close> and \<open>process.stderr.columns\<close>
  (\<open>None\<close> when undefined). \<open>fairFloor ws i a\<close> stands for the double-precision value of
  \<open>Math.floor((Math.sqrt(ws[i]) / sqrtTotal) * a)\<close> when \<open>sqrtTotal\<close> is not zero.
  \<open>inherited key\<close> is what a row that has no property \<open>key\<close> of its own yields for
  \<open>row[key]\<close>: the member of the prototype of the rows (\<open>Object.prototype\<close> for
  plain objects), \<open>undefined\<close> when the prototype has none.
\<close>

record runtime =
  stringWidth :: "jstr \<Rightarrow> nat"
  enableANSIColors :: bool
  inspect :: "jsval \<Rightarrow> jstr"
  stdoutColumns :: "int option"
  stderrColumns :: "int option"
  fairFloor :: "int list \<Rightarrow> nat \<Rightarrow> int \<Rightarrow> int"
  inherited :: "jstr \<Rightarrow> jsval"

text \<open>
  A row is a JavaScript object: its entries in the order \<open>Object.keys\<close> lists them,
  with distinct keys. A property that the row does not have itself is read from its
  prototype.
  \<open>maxRows\<close> is an integer or \<open>Infinity\<close>; an option that is absent is \<open>None\<close>,
  and an absent \<open>fullContent\<close> is \<open>False\<close>.
\<close>

type_synonym row = "(jstr \<times> jsval) list"

datatype maxrows = Rows int | Infinity

record options =
  maxRows :: "maxrows option"
  title :: "jstr option"
  totalRows :: "int option"
  fullContent :: bool

text \<open>
  The layout that \<open>printTable\<close> computes before it draws: the visible columns, the
  number of hidden ones, the alignment flag and the final width of each visible column,
  the formatted cells of the displayed rows, the text of the trailer, and the inner width
  with and without the two padding columns.
\<close>

record layout =
  lColumns :: "jstr list"
  lHiddenCols :: nat
  lIsNumeric :: "bool list"
  lWidths :: "jsnum list"
  lRows :: "jstr list list"
  lInfoText :: jstr
  lInnerWidth :: jsnum
  lTotalInnerWidth :: jsnum

definition sw :: "runtime \<Rightarrow> jstr \<Rightarrow> jsnum" where
  "sw E s = Num (int (stringWidth E s))"

definition RESET :: jstr where "RESET = 27 # js ''[0m''"
definition DIM :: jstr where "DIM = 27 # js ''[2m''"
definition BOLD :: jstr where "BOLD = 27 # js ''[1m''"

definition ELLIPSIS :: nat where "ELLIPSIS = 8230"
definition SPACE :: nat where "SPACE = 32"
definition NEWLINE :: nat where "NEWLINE = 10"

datatype error = TypeError | RangeError

section \<open>truncate, padRight, padLeft\<close>

function truncateLoop :: "runtime \<Rightarrow> jstr \<Rightarrow> jsnum \<Rightarrow> nat \<Rightarrow> nat \<Rightarrow> nat" where
  "truncateLoop E str maxWidth low high =
     (if low < high then
        (let mid = (low + high + 1) div 2 in
         if le_num (Num (int (stringWidth E (take mid str)) + 1)) maxWidth
         then truncateLoop E str maxWidth mid high
         else truncateLoop E str maxWidth low (mid - 1))
      else low)"
  by pat_completeness auto
termination
  by (relation "measure (\<lambda>(E, str, maxWidth, low, high). high - low)") auto

declare truncateLoop.simps [simp del]

definition truncate :: "runtime \<Rightarrow> jstr \<Rightarrow> jsnum \<Rightarrow> jstr" where
  "truncate E str maxWidth =
     (if le_num (sw E str) maxWidth then str
      else
        (let low = truncateLoop E str maxWidth 0 (length str);
             truncated = take low str @ [ELLIPSIS]
         in if enableANSIColors E then truncated @ RESET else truncated))"

text \<open>
  In both padding functions the count given to \<open>repeat\<close> is positive when it is
  a number, so \<open>repeat\<close> cannot throw there; \<open>" ".repeat(NaN)\<close> is the empty string.
\<close>

definition padRight :: "runtime \<Rightarrow> jstr \<Rightarrow> jsnum \<Rightarrow> jstr" where
  "padRight E str width =
     (if ge_num (sw E str) width then str
      else (case width of
              NaN \<Rightarrow> str
            | Num w \<Rightarrow> str @ replicate (nat (w - int (stringWidth E str))) SPACE))"

definition padLeft :: "runtime \<Rightarrow> jstr \<Rightarrow> jsnum \<Rightarrow> jstr" where
  "padLeft E str width =
     (if ge_num (sw E str) width then str
      else (case width of
              NaN \<Rightarrow> str
            | Num w \<Rightarrow> replicate (nat (w - int (stringWidth E str))) SPACE @ str))"

section \<open>wrapLines\<close>

text \<open>\<open>raw.split(/([ ]+)/)\<close>: the pieces between runs of spaces, with the runs themselves.\<close>

lemma tokens_shorter:
  assumes "dropWhile (\<lambda>c. c \<noteq> SPACE) s \<noteq> []"
  shows "length (dropWhile (\<lambda>c. c = SPACE) (dropWhile (\<lambda>c. c \<noteq> SPACE) s)) < length s"
proof -
  let ?r = "dropWhile (\<lambda>c. c \<noteq> SPACE) s"
  from assms have "hd ?r = SPACE"
    using hd_dropWhile [of "\<lambda>c. c \<noteq> SPACE" s] by simp
  with assms obtain cs where r: "?r = SPACE # cs"
    by (cases ?r) auto
  have "length (dropWhile (\<lambda>c. c = SPACE) (SPACE # cs)) \<le> length cs"
    by (simp add: length_dropWhile_le)
  moreover have "length ?r \<le> length s"
    by (rule length_dropWhile_le)
  ultimately show ?thesis using r by simp
qed

function tokens :: "jstr \<Rightarrow> jstr list" where
  "tokens s =
     (let word = takeWhile (\<lambda>c. c \<noteq> SPACE) s;
          rest = dropWhile (\<lambda>c. c \<noteq> SPACE) s
      in if rest = [] then [word]
         else word # takeWhile (\<lambda>c. c = SPACE) rest
                   # tokens (dropWhile (\<lambda>c. c = SPACE) rest))"
  by pat_completeness auto
termination
proof (relation "measure length", goal_cases)
  case 1
  show ?case by simp
next
  case (2 s word rest)
  then have "dropWhile (\<lambda>c. c \<noteq> SPACE) s \<noteq> []" by blast
  from tokens_shorter [OF this] 2 show ?case by simp
qed

declare tokens.simps [simp del]

function cutLoop :: "runtime \<Rightarrow> jsnum \<Rightarrow> jstr \<Rightarrow> nat \<Rightarrow> nat" where
  "cutLoop E maxWidth fragment cutPoint =
     (if cutPoint < length fragment \<and> lt_num (sw E (take cutPoint fragment)) maxWidth
      then cutLoop E maxWidth fragment (cutPoint + 1)
      else cutPoint)"
  by pat_completeness auto
termination
  by (relation "measure (\<lambda>(E, maxWidth, fragment, cutPoint). length fragment - cutPoint)") auto

declare cutLoop.simps [simp del]

lemma cutLoop_ge: "cutPoint \<le> cutLoop E maxWidth fragment cutPoint"
proof (induction E maxWidth fragment cutPoint rule: cutLoop.induct)
  case (1 E maxWidth fragment cutPoint)
  show ?case
  proof (cases "cutPoint < length fragment \<and> lt_num (sw E (take cutPoint fragment)) maxWidth")
    case True
    with 1 have "cutPoint + 1 \<le> cutLoop E maxWidth fragment (cutPoint + 1)" by simp
    with True show ?thesis
      using cutLoop.simps [of E maxWidth fragment cutPoint] by simp
  next
    case False
    then show ?thesis
      using cutLoop.simps [of E maxWidth fragment cutPoint] by auto
  qed
qed

text \<open>The \<open>while (fragment.length > 0)\<close> loop; the state is \<open>current\<close> and \<open>lines\<close>.\<close>

function wrapFragment :: "runtime \<Rightarrow> jsnum \<Rightarrow> jstr \<Rightarrow> jstr \<Rightarrow> jstr list \<Rightarrow> jstr \<times> jstr list" where
  "wrapFragment E maxWidth current fragment lines =
     (if length fragment > 0 then
        (if gt_num (sw E (current @ fragment)) maxWidth then
           (if length current > 0 then
              wrapFragment E maxWidth [] fragment (lines @ [current])
            else
              (let cutPoint = cutLoop E maxWidth fragment 1 in
               wrapFragment E maxWidth current (drop cutPoint fragment)
                 (lines @ [take cutPoint fragment])))
         else wrapFragment E maxWidth (current @ fragment) [] lines)
      else (current, lines))"
  by pat_completeness auto
termination
proof (relation "measures [\<lambda>(E, maxWidth, current, fragment, lines). length fragment,
                           \<lambda>(E, maxWidth, current, fragment, lines). length current]",
       goal_cases)
  case 1
  show ?case by simp
next
  case 2
  then show ?case by simp
next
  case (3 E maxWidth current fragment lines cutPoint)
  have "1 \<le> cutLoop E maxWidth fragment 1" by (rule cutLoop_ge)
  with 3 show ?case by simp
next
  case 4
  then show ?case by simp
qed

declare wrapFragment.simps [simp del]

text \<open>The body of \<open>for (const token of tokens)\<close>, folded over the tokens.\<close>

fun wrapTokens :: "runtime \<Rightarrow> jsnum \<Rightarrow> jstr list \<Rightarrow> jstr \<Rightarrow> jstr list \<Rightarrow> jstr \<times> jstr list" where
  "wrapTokens E maxWidth [] current lines = (current, lines)"
| "wrapTokens E maxWidth (token # rest) current lines =
     (case wrapFragment E maxWidth current token lines of
        (current', lines') \<Rightarrow>
          if ge_num (sw E current') maxWidth
          then wrapTokens E maxWidth rest [] (lines' @ [current'])
          else wrapTokens E maxWidth rest current' lines')"

definition wrapLines :: "runtime \<Rightarrow> jstr \<Rightarrow> jsnum \<Rightarrow> jstr list" where
  "wrapLines E str maxWidth =
     (let raw = map (\<lambda>c. if c = NEWLINE then SPACE else c) str in
      if raw = [] then [[]]
      else
        (case wrapTokens E maxWidth (tokens raw) [] [] of
           (current, lines) \<Rightarrow>
             if length current > 0 then lines @ [current] else lines))"

text \<open>The decimal form that a template literal gives an integer.\<close>

fun showNat :: "nat \<Rightarrow> jstr" where
  "showNat n = (if n < 10 then [48 + n] else showNat (n div 10) @ [48 + n mod 10])"

declare showNat.simps [simp del]

definition showInt :: "int \<Rightarrow> jstr" where
  "showInt i = (if i < 0 then 45 # showNat (nat (- i)) else showNat (nat i))"

section \<open>printTable\<close>

subsection \<open>Reading the input\<close>

text \<open>\<open>row[col]\<close>: the row's own property, or else the one it inherits.\<close>

definition getProp :: "runtime \<Rightarrow> row \<Rightarrow> jstr \<Rightarrow> jsval" where
  "getProp E r col = (case map_of r col of None \<Rightarrow> inherited E col | Some v \<Rightarrow> v)"

text \<open>\<open>rows.slice(0, k)\<close>: a negative \<open>k\<close> counts from the end.\<close>

definition sliceTo :: "'a list \<Rightarrow> int \<Rightarrow> 'a list" where
  "sliceTo xs k = (if k < 0 then take (nat (int (length xs) + k)) xs else take (nat k) xs)"

text \<open>A title is used when it is truthy: present and not the empty string.\<close>

definition hasTitle :: "jstr option \<Rightarrow> bool" where
  "hasTitle t = (case t of None \<Rightarrow> False | Some s \<Rightarrow> s \<noteq> [])"

definition dim :: "runtime \<Rightarrow> jstr" where
  "dim E = (if enableANSIColors E then DIM else [])"

definition reset :: "runtime \<Rightarrow> jstr" where
  "reset E = (if enableANSIColors E then RESET else [])"

definition bold :: "runtime \<Rightarrow> jstr" where
  "bold E = (if enableANSIColors E then BOLD else [])"

definition getTerminalWidth :: "runtime \<Rightarrow> int" where
  "getTerminalWidth E =
     (case stdoutColumns E of
        Some c \<Rightarrow> if c \<noteq> 0 then c
                 else (case stderrColumns E of
                         Some d \<Rightarrow> if d \<noteq> 0 then d else 120
                       | None \<Rightarrow> 120)
      | None \<Rightarrow> (case stderrColumns E of
                  Some d \<Rightarrow> if d \<noteq> 0 then d else 120
                | None \<Rightarrow> 120))"

definition formatValue :: "runtime \<Rightarrow> jsval \<Rightarrow> jstr" where
  "formatValue E v =
     (case v of
        VNull \<Rightarrow> dim E @ js ''NULL'' @ reset E
      | VUndefined \<Rightarrow> dim E @ js ''NULL'' @ reset E
      | VString s \<Rightarrow> s
      | _ \<Rightarrow> inspect E v)"

text \<open>\<open>.replace(/\n/g, "\\n")\<close>: a newline becomes a backslash and the letter n.\<close>

definition escapeNewlines :: "jstr \<Rightarrow> jstr" where
  "escapeNewlines s = concat (map (\<lambda>c. if c = NEWLINE then [92, 110] else [c]) s)"

definition isNumericValue :: "jsval \<Rightarrow> bool" where
  "isNumericValue v =
     (case v of VNull \<Rightarrow> True | VUndefined \<Rightarrow> True | VNumber _ \<Rightarrow> True
              | VBigInt _ \<Rightarrow> True | _ \<Rightarrow> False)"

subsection \<open>Arithmetic on widths\<close>

fun add_num :: "jsnum \<Rightarrow> jsnum \<Rightarrow> jsnum" where
  "add_num (Num a) (Num b) = Num (a + b)"
| "add_num _ _ = NaN"

fun sub_num :: "jsnum \<Rightarrow> jsnum \<Rightarrow> jsnum" where
  "sub_num (Num a) (Num b) = Num (a - b)"
| "sub_num _ _ = NaN"

fun max_num :: "jsnum \<Rightarrow> jsnum \<Rightarrow> jsnum" where
  "max_num (Num a) (Num b) = Num (max a b)"
| "max_num _ _ = NaN"

fun min_num :: "jsnum \<Rightarrow> jsnum \<Rightarrow> jsnum" where
  "min_num (Num a) (Num b) = Num (min a b)"
| "min_num _ _ = NaN"

text \<open>\<open>xs.reduce((a, b) => a + b, 0)\<close>\<close>

definition sum_num :: "jsnum list \<Rightarrow> jsnum" where
  "sum_num xs = foldl add_num (Num 0) xs"

text \<open>
  \<open>s.repeat(n)\<close> throws a RangeError for a negative count and gives the empty
  string for \<open>NaN\<close>.
\<close>

definition repeat :: "jstr \<Rightarrow> jsnum \<Rightarrow> error + jstr" where
  "repeat s n =
     (case n of
        NaN \<Rightarrow> Inr []
      | Num k \<Rightarrow> if k < 0 then Inl RangeError else Inr (concat (replicate (nat k) s)))"

text \<open>\<open>xs.join(sep)\<close>\<close>

fun join :: "jstr \<Rightarrow> jstr list \<Rightarrow> jstr" where
  "join sep [] = []"
| "join sep [x] = x"
| "join sep (x # y # ys) = x @ sep @ join sep (y # ys)"

subsection \<open>Column layout\<close>

definition minColWidth :: int where
  "minColWidth = 3"

text \<open>
  \<open>colWidths\<close> starts as the header widths; formatting each displayed row raises
  \<open>colWidths[i]\<close> to the width of the row's cell \<open>i\<close>.
\<close>

definition formatRow :: "runtime \<Rightarrow> jstr list \<Rightarrow> row \<Rightarrow> jstr list" where
  "formatRow E allColumns r = map (\<lambda>col. escapeNewlines (formatValue E (getProp E r col))) allColumns"

definition raiseWidths :: "runtime \<Rightarrow> int list \<Rightarrow> jstr list \<Rightarrow> int list" where
  "raiseWidths E colWidths formatted =
     map (\<lambda>i. max (colWidths ! i) (int (stringWidth E (formatted ! i)))) [0..<length formatted]"

definition naturalWidths :: "runtime \<Rightarrow> jstr list \<Rightarrow> jstr list list \<Rightarrow> int list" where
  "naturalWidths E allColumns formattedRows =
     foldl (raiseWidths E) (map (\<lambda>col. int (stringWidth E col)) allColumns) formattedRows"

text \<open>
  The column-hiding loop. Its state is \<open>columns\<close>, \<open>hiddenCols\<close> and
  \<open>availableForColumns\<close>.
\<close>

function hideLoop :: "int \<Rightarrow> jstr list \<Rightarrow> nat \<Rightarrow> int \<Rightarrow> jstr list \<times> nat \<times> int" where
  "hideLoop termWidth columns hiddenCols availableForColumns =
     (if int (length columns) * minColWidth > availableForColumns \<and> length columns > 1
      then hideLoop termWidth (butlast columns) (hiddenCols + 1)
             (termWidth - (4 + (int (length (butlast columns)) - 1) * 3))
      else (columns, hiddenCols, availableForColumns))"
  by pat_completeness auto
termination
  by (relation "measure (\<lambda>(termWidth, columns, hiddenCols, available). length columns)") auto

declare hideLoop.simps [simp del]

definition hideColumns :: "int \<Rightarrow> jstr list \<Rightarrow> jstr list \<times> nat \<times> int" where
  "hideColumns termWidth allColumns =
     (let borderOverhead = 4 + (int (length allColumns) - 1) * 3
      in hideLoop termWidth allColumns 0 (termWidth - borderOverhead))"

text \<open>
  The fair share of column \<open>i\<close>. \<open>sqrtTotal\<close> is zero exactly when every visible
  natural width is zero, and then \<open>0 / 0\<close> makes the share \<open>NaN\<close>.
\<close>

definition fairShare :: "runtime \<Rightarrow> int list \<Rightarrow> nat \<Rightarrow> int \<Rightarrow> jsnum" where
  "fairShare E ws i available =
     (if list_all (\<lambda>w. w = 0) ws then NaN else Num (fairFloor E ws i available))"

text \<open>The index of the first maximum, as the inner \<open>for\<close> loop finds it.\<close>

definition maxIndex :: "jsnum list \<Rightarrow> nat" where
  "maxIndex ws = foldl (\<lambda>maxIdx i. if gt_num (ws ! i) (ws ! maxIdx) then i else maxIdx) 0 [1..<length ws]"

function shrinkLoop :: "int \<Rightarrow> jsnum list \<Rightarrow> jsnum \<Rightarrow> jsnum list" where
  "shrinkLoop available ws totalWidth =
     (if gt_num totalWidth (Num available) \<and> list_ex (\<lambda>w. gt_num w (Num minColWidth)) ws
      then shrinkLoop available
             (ws [maxIndex ws := sub_num (ws ! maxIndex ws) (Num 1)])
             (sub_num totalWidth (Num 1))
      else ws)"
  by pat_completeness auto
termination
proof (relation "measure (\<lambda>(available, ws, totalWidth).
                   case totalWidth of Num t \<Rightarrow> nat (t - available) | NaN \<Rightarrow> 0)", goal_cases)
  case 1
  show ?case by simp
next
  case (2 available ws totalWidth)
  then show ?case by (cases totalWidth) (simp_all add: gt_num_def)
qed

declare shrinkLoop.simps [simp del]

text \<open>The widths of the visible columns after the \<open>if (totalWidth > availableForColumns)\<close> block.\<close>

definition compressWidths :: "runtime \<Rightarrow> int \<Rightarrow> jstr list \<Rightarrow> int list \<Rightarrow> jsnum list" where
  "compressWidths E available columns visibleColWidths =
     (if sum_list visibleColWidths > available then
        (let headerWidths = map (\<lambda>col. max minColWidth (int (stringWidth E col))) columns;
             ws = map (\<lambda>i. max_num (Num (headerWidths ! i))
                                   (fairShare E visibleColWidths i available))
                      [0..<length visibleColWidths]
         in shrinkLoop available ws (sum_num ws))
      else map Num visibleColWidths)"

text \<open>The text of the trailer, empty when no row was cut and no column hidden.\<close>

definition infoText :: "int \<Rightarrow> nat \<Rightarrow> jstr" where
  "infoText truncatedRows hiddenCols =
     (if truncatedRows > 0 \<or> hiddenCols > 0 then
        (let parts =
               (if truncatedRows > 0
                then [showInt truncatedRows @ js '' more row'' @ (if truncatedRows > 1 then js ''s'' else [])]
                else []) @
               (if hiddenCols > 0
                then [showNat hiddenCols @ js '' more column'' @ (if hiddenCols > 1 then js ''s'' else [])]
                else [])
         in js ''... '' @ join (js '', '') parts)
      else [])"

subsection \<open>Drawing\<close>

definition BOX_topLeft :: nat where "BOX_topLeft = 9581"
definition BOX_topRight :: nat where "BOX_topRight = 9582"
definition BOX_bottomLeft :: nat where "BOX_bottomLeft = 9584"
definition BOX_bottomRight :: nat where "BOX_bottomRight = 9583"
definition BOX_horizontal :: nat where "BOX_horizontal = 9472"
definition BOX_vertical :: nat where "BOX_vertical = 9474"
definition BOX_headerLeft :: nat where "BOX_headerLeft = 9500"
definition BOX_headerRight :: nat where "BOX_headerRight = 9508"
definition BOX_headerCross :: nat where "BOX_headerCross = 9532"
definition BOX_topCross :: nat where "BOX_topCross = 9516"
definition BOX_bottomCross :: nat where "BOX_bottomCross = 9524"

text \<open>
  What a call has written and whether it threw: the lines given to \<open>console.log\<close>
  in order, and the exception that ended the call, if any. A statement is the string it
  logs, or the exception that building the string throws; \<open>run\<close> executes statements
  until one throws.
\<close>

type_synonym printed = "jstr list \<times> error option"

fun run :: "(error + jstr) list \<Rightarrow> printed" where
  "run [] = ([], None)"
| "run (Inl e # rest) = ([], Some e)"
| "run (Inr line # rest) = (case run rest of (lines, thrown) \<Rightarrow> (line # lines, thrown))"

text \<open>\<open>ws.map((w) => BOX.horizontal.repeat(w))\<close>\<close>

fun repeatAll :: "jsnum list \<Rightarrow> error + jstr list" where
  "repeatAll [] = Inr []"
| "repeatAll (w # ws) =
     (case repeat [BOX_horizontal] w of
        Inl e \<Rightarrow> Inl e
      | Inr cell \<Rightarrow> (case repeatAll ws of Inl e \<Rightarrow> Inl e | Inr cells \<Rightarrow> Inr (cell # cells)))"

text \<open>A border: a left corner, the rules of the columns joined by a cross, a right corner.\<close>

definition border :: "nat \<Rightarrow> nat \<Rightarrow> nat \<Rightarrow> jsnum list \<Rightarrow> error + jstr" where
  "border left cross right ws =
     (case repeatAll ws of
        Inl e \<Rightarrow> Inl e
      | Inr cells \<Rightarrow>
          Inr ([left, BOX_horizontal]
               @ join [BOX_horizontal, cross, BOX_horizontal] cells
               @ [BOX_horizontal, right]))"

definition dimmed :: "runtime \<Rightarrow> error + jstr \<Rightarrow> error + jstr" where
  "dimmed E b = (case b of Inl e \<Rightarrow> Inl e | Inr text \<Rightarrow> Inr (dim E @ text @ reset E))"

definition topLine :: "runtime \<Rightarrow> jstr option \<Rightarrow> jsnum list \<Rightarrow> error + jstr" where
  "topLine E t ws =
     (case border BOX_topLeft BOX_topCross BOX_topRight ws of
        Inl e \<Rightarrow> Inl e
      | Inr fullTopBorder \<Rightarrow>
          (if hasTitle t then
             (let titleDisplay = [SPACE] @ the t @ [SPACE];
                  titleDisplayWidth = stringWidth E titleDisplay;
                  beforeTitle = take 2 fullTopBorder;
                  afterTitle = drop (2 + titleDisplayWidth) fullTopBorder
              in Inr (dim E @ beforeTitle @ reset E @ bold E @ titleDisplay @ reset E
                      @ dim E @ afterTitle @ reset E))
           else Inr (dim E @ fullTopBorder @ reset E)))"

text \<open>A cell: truncated to the column's width, then padded on the left or on the right.\<close>

definition alignCell :: "runtime \<Rightarrow> bool \<Rightarrow> jstr \<Rightarrow> jsnum \<Rightarrow> jstr" where
  "alignCell E numeric val w =
     (if numeric then padLeft E (truncate E val w) w else padRight E (truncate E val w) w)"

definition separator :: "runtime \<Rightarrow> jstr" where
  "separator E = [SPACE] @ dim E @ [BOX_vertical] @ reset E @ [SPACE]"

definition framed :: "runtime \<Rightarrow> jstr \<Rightarrow> jstr" where
  "framed E line =
     dim E @ [BOX_vertical] @ reset E @ [SPACE] @ line @ [SPACE] @ dim E @ [BOX_vertical] @ reset E"

definition cellsLine :: "runtime \<Rightarrow> bool list \<Rightarrow> jsnum list \<Rightarrow> jstr list \<Rightarrow> jstr" where
  "cellsLine E numeric ws vals =
     framed E (join (separator E)
                 (map (\<lambda>i. alignCell E (numeric ! i) (vals ! i) (ws ! i)) [0..<length vals]))"

text \<open>The lines of one row in full-content mode.\<close>

definition wrappedRow :: "runtime \<Rightarrow> bool list \<Rightarrow> jsnum list \<Rightarrow> jstr list \<Rightarrow> jstr list" where
  "wrappedRow E numeric ws vals =
     (let wrapped = map (\<lambda>i. wrapLines E (vals ! i) (ws ! i)) [0..<length vals];
          rowHeight = foldr max (map length wrapped) 0
      in map (\<lambda>lineIdx.
                cellsLine E numeric ws
                  (map (\<lambda>cellLines. if lineIdx < length cellLines then cellLines ! lineIdx else [])
                       wrapped))
             [0..<rowHeight])"

definition fullContentRows :: "runtime \<Rightarrow> bool list \<Rightarrow> jsnum list \<Rightarrow> jstr list list \<Rightarrow> (error + jstr) list" where
  "fullContentRows E numeric ws visibleFormattedRows =
     concat (map (\<lambda>rowIdx.
                    map Inr (wrappedRow E numeric ws (visibleFormattedRows ! rowIdx))
                    @ (if int rowIdx < int (length visibleFormattedRows) - 1
                       then [dimmed E (border BOX_headerLeft BOX_headerCross BOX_headerRight ws)]
                       else []))
                 [0..<length visibleFormattedRows])"

definition trailer :: "runtime \<Rightarrow> jstr \<Rightarrow> jsnum \<Rightarrow> jsnum \<Rightarrow> jsnum list \<Rightarrow> (error + jstr) list" where
  "trailer E info innerWidth totalInnerWidth ws =
     (if info \<noteq> [] then
        [Inr (dim E @ [BOX_vertical, SPACE]
              @ padRight E (truncate E info innerWidth) innerWidth
              @ [SPACE, BOX_vertical] @ reset E),
         (case repeat [BOX_horizontal] totalInnerWidth of
            Inl e \<Rightarrow> Inl e
          | Inr rule \<Rightarrow> Inr (dim E @ [BOX_bottomLeft] @ rule @ [BOX_bottomRight] @ reset E))]
      else [dimmed E (border BOX_bottomLeft BOX_bottomCross BOX_bottomRight ws)])"

text \<open>Everything \<open>printTable\<close> logs for a non-empty table, from its layout.\<close>

definition drawTable :: "runtime \<Rightarrow> options \<Rightarrow> layout \<Rightarrow> (error + jstr) list" where
  "drawTable E opts L =
     [topLine E (title opts) (lWidths L),
      Inr (cellsLine E (lIsNumeric L) (lWidths L) (lColumns L)),
      dimmed E (border BOX_headerLeft BOX_headerCross BOX_headerRight (lWidths L))]
     @ (if fullContent opts
        then fullContentRows E (lIsNumeric L) (lWidths L) (lRows L)
        else map (\<lambda>vals. Inr (cellsLine E (lIsNumeric L) (lWidths L) vals)) (lRows L))
     @ trailer E (lInfoText L) (lInnerWidth L) (lTotalInnerWidth L) (lWidths L)"

text \<open>The branch for \<open>rows.length === 0\<close>.\<close>

definition emptyTable :: "runtime \<Rightarrow> options \<Rightarrow> (error + jstr) list" where
  "emptyTable E opts =
     (if hasTitle (title opts) then
        (let emptyText = js ''(empty)'';
             contentWidth = max (int (stringWidth E emptyText)) (int (stringWidth E (the (title opts))));
             titleDisplay = [SPACE] @ the (title opts) @ [SPACE];
             titleWidth = int (stringWidth E titleDisplay);
             innerWidth = contentWidth + 2;
             remainingWidth = innerWidth - titleWidth - 1
         in [(case repeat [BOX_horizontal] (Num (max 0 remainingWidth)) of
                Inl e \<Rightarrow> Inl e
              | Inr rule \<Rightarrow>
                  Inr (dim E @ [BOX_topLeft, BOX_horizontal] @ reset E @ bold E @ titleDisplay
                       @ reset E @ dim E @ rule @ [BOX_topRight] @ reset E)),
             Inr (dim E @ [BOX_vertical] @ reset E @ [SPACE]
                  @ padRight E emptyText (Num contentWidth)
                  @ [SPACE] @ dim E @ [BOX_vertical] @ reset E),
             (case repeat [BOX_horizontal] (Num innerWidth) of
                Inl e \<Rightarrow> Inl e
              | Inr rule \<Rightarrow> Inr (dim E @ [BOX_bottomLeft] @ rule @ [BOX_bottomRight] @ reset E))])
      else [Inr (js ''(empty)'')])"

text \<open>\<open>displayRows\<close>: the rows that are drawn; \<open>maxRows\<close> defaults to 100.\<close>

definition displayRowsOf :: "options \<Rightarrow> row list \<Rightarrow> row list" where
  "displayRowsOf opts rows =
     (let maxRows = (case maxRows opts of None \<Rightarrow> Rows 100 | Some m \<Rightarrow> m)
      in case maxRows of Infinity \<Rightarrow> rows | Rows k \<Rightarrow> sliceTo rows k)"

text \<open>
  The layout of a table with at least one displayed row: \<open>rowCount\<close> is
  \<open>rows.length\<close> and \<open>allColumns\<close> the keys of the first displayed row.
\<close>

definition tableLayout :: "runtime \<Rightarrow> options \<Rightarrow> nat \<Rightarrow> row list \<Rightarrow> jstr list \<Rightarrow> layout" where
  "tableLayout E opts rowCount displayRows allColumns =
     (let termWidth = getTerminalWidth E;
          isNumericCol =
            map (\<lambda>col. list_all (\<lambda>r. isNumericValue (getProp E r col)) displayRows) allColumns;
          formattedRows = map (formatRow E allColumns) displayRows;
          colWidths = naturalWidths E allColumns formattedRows
      in case hideColumns termWidth allColumns of
           (columns, hiddenCols, availableForColumns) \<Rightarrow>
            (let visibleColWidths = take (length columns) colWidths;
                 visibleFormattedRows = map (take (length columns)) formattedRows;
                 visibleIsNumeric = take (length columns) isNumericCol;
                 ws = compressWidths E availableForColumns columns visibleColWidths;
                 actualTotal = (case totalRows opts of None \<Rightarrow> int rowCount | Some t \<Rightarrow> t);
                 truncatedRows =
                   (if actualTotal > int (length displayRows)
                    then actualTotal - int (length displayRows) else 0);
                 info = infoText truncatedRows hiddenCols;
                 contentWidth = add_num (sum_num ws) (Num ((int (length columns) - 1) * 3));
                 titleWidth =
                   (if hasTitle (title opts) then int (stringWidth E (the (title opts))) + 4 else 0);
                 maxInnerWidth = termWidth - 4;
                 innerWidth = min_num (max_num contentWidth (Num titleWidth)) (Num maxInnerWidth);
                 totalInnerWidth = add_num innerWidth (Num 2);
                 ws' = (if gt_num innerWidth contentWidth \<and> length ws > 0
                        then ws [length ws - 1 :=
                                   add_num (ws ! (length ws - 1)) (sub_num innerWidth contentWidth)]
                        else ws)
             in \<lparr> lColumns = columns, lHiddenCols = hiddenCols, lIsNumeric = visibleIsNumeric,
                  lWidths = ws', lRows = visibleFormattedRows, lInfoText = info,
                  lInnerWidth = innerWidth, lTotalInnerWidth = totalInnerWidth \<rparr>))"

definition printTable :: "runtime \<Rightarrow> row list \<Rightarrow> options \<Rightarrow> printed" where
  "printTable E rows opts =
     (if length rows = 0 then run (emptyTable E opts)
      else
        (let rowCount = length rows;
             displayRows = displayRowsOf opts rows
         in case displayRows of
              [] \<Rightarrow> ([], Some TypeError)
            | first # _ \<Rightarrow>
                run (drawTable E opts (tableLayout E opts rowCount displayRows (map fst first)))))"

section \<open>Concrete runtimes\<close>

text \<open>
  Instances of the runtime on which the definitions are evaluated. \<open>charWidth\<close> gives a
  CJK unified ideograph two columns and every other code unit one; \<open>plainWidth\<close> adds the
  columns up, which is the display width of text without escape sequences, combining
  marks or surrogate pairs. \<open>plainInspect\<close> prints an integer in decimal form.
\<close>

definition charWidth :: "nat \<Rightarrow> nat" where
  "charWidth c = (if 19968 \<le> c \<and> c \<le> 40959 then 2 else 1)"

definition plainWidth :: "jstr \<Rightarrow> nat" where
  "plainWidth s = sum_list (map charWidth s)"

definition plainInspect :: "jsval \<Rightarrow> jstr" where
  "plainInspect v =
     (case v of
        VNumber n \<Rightarrow> showInt n
      | VBigInt n \<Rightarrow> showInt n @ js ''n''
      | VString s \<Rightarrow> [34] @ s @ [34]
      | VOther s \<Rightarrow> s
      | VNull \<Rightarrow> js ''null''
      | VUndefined \<Rightarrow> js ''undefined'')"

text \<open>
  The members of \<open>Object.prototype\<close>, which a plain object inherits: functions, shown
  by \<open>Bun.inspect\<close> with their names, the constructor and the prototype object itself.
\<close>

definition objectPrototype :: "jstr \<Rightarrow> jsval" where
  "objectPrototype key =
     (if key \<in> set (map js [''toString'', ''toLocaleString'', ''valueOf'', ''hasOwnProperty'',
                             ''isPrototypeOf'', ''propertyIsEnumerable'', ''__defineGetter__'',
                             ''__defineSetter__'', ''__lookupGetter__'', ''__lookupSetter__''])
      then VOther (js ''[Function: '' @ key @ js '']'')
      else if key = js ''constructor'' then VOther (js ''[class Object]'')
      else if key = js ''__proto__'' then VOther (js ''[Object: null prototype] {}'')
      else VUndefined)"

text \<open>
  With one visible column \<open>sqrtWidths[0] / sqrtTotal\<close> is exactly 1, so the fair share
  is the available width. \<open>plainRuntime\<close> is evaluated with one column only, or where
  the compression does not run.
\<close>

definition plainRuntime :: "int \<Rightarrow> runtime" where
  "plainRuntime cols =
     \<lparr> stringWidth = plainWidth, enableANSIColors = False, inspect = plainInspect,
       stdoutColumns = Some cols, stderrColumns = None,
       fairFloor = (\<lambda>ws i a. a), inherited = objectPrototype \<rparr>"

text \<open>
  The display width of text that holds escape sequences: a control sequence (the escape
  character, an opening bracket, parameter bytes and a final byte) takes no column, a lone
  escape character takes none, and every other code unit takes \<open>charWidth\<close> columns. A
  code unit that cannot continue a control sequence ends it and is counted.
\<close>

datatype scan = Normal | AfterEsc | InCsi

fun ansiScan :: "scan \<Rightarrow> jstr \<Rightarrow> nat" where
  "ansiScan st [] = 0"
| "ansiScan st (c # cs) =
     (if st = AfterEsc \<and> c = 91 then ansiScan InCsi cs
      else if st = InCsi \<and> 48 \<le> c \<and> c \<le> 63 then ansiScan InCsi cs
      else if st = InCsi \<and> 64 \<le> c \<and> c \<le> 126 then ansiScan Normal cs
      else if c = 27 then ansiScan AfterEsc cs
      else charWidth c + ansiScan Normal cs)"

definition ansiWidth :: "jstr \<Rightarrow> nat" where
  "ansiWidth s = ansiScan Normal s"

text \<open>
  With colour, \<open>Bun.inspect\<close> wraps a number in the sequences for yellow and for the
  default colour. As for \<open>plainRuntime\<close>, the fair share of \<open>colourRuntime\<close> is the
  available width; it is evaluated only where the compression does not run.
\<close>

definition colourInspect :: "jsval \<Rightarrow> jstr" where
  "colourInspect v =
     (case v of
        VNumber n \<Rightarrow> 27 # js ''[33m'' @ showInt n @ 27 # js ''[39m''
      | VBigInt n \<Rightarrow> 27 # js ''[33m'' @ showInt n @ js ''n'' @ 27 # js ''[39m''
      | _ \<Rightarrow> plainInspect v)"

definition colourRuntime :: "int \<Rightarrow> runtime" where
  "colourRuntime cols =
     \<lparr> stringWidth = ansiWidth, enableANSIColors = True, inspect = colourInspect,
       stdoutColumns = Some cols, stderrColumns = None,
       fairFloor = (\<lambda>ws i a. a), inherited = objectPrototype \<rparr>"

section \<open>What is assumed of the display width\<close>

text \<open>
  \<open>Bun.stringWidth\<close> belongs to the runtime, so the properties below are stated for
  every runtime that meets the assumption they name. \<open>ellipsisTail\<close> is what
  \<open>truncate\<close> appends to the prefix it keeps: the ellipsis, and the reset sequence when
  colour is on.
\<close>

definition ellipsisTail :: "runtime \<Rightarrow> jstr" where
  "ellipsisTail E = ELLIPSIS # (if enableANSIColors E then RESET else [])"

text \<open>The empty string has no width, and the appended tail adds at most one column.\<close>

definition ellipsisOneColumn :: "runtime \<Rightarrow> bool" where
  "ellipsisOneColumn E \<longleftrightarrow>
     stringWidth E [] = 0 \<and>
     (\<forall>p. stringWidth E (p @ ellipsisTail E) \<le> stringWidth E p + 1)"

text \<open>Appending a code unit of the string to any text adds at most one column.\<close>

definition narrow :: "runtime \<Rightarrow> jstr \<Rightarrow> bool" where
  "narrow E s \<longleftrightarrow> (\<forall>p. \<forall>c \<in> set s. stringWidth E (p @ [c]) \<le> stringWidth E p + 1)"

text \<open>The test of the binary search in \<open>truncate\<close>, and the bound on a wrapped line.\<close>

definition fits :: "runtime \<Rightarrow> jstr \<Rightarrow> jsnum \<Rightarrow> nat \<Rightarrow> bool" where
  "fits E str maxWidth m \<longleftrightarrow> le_num (Num (int (stringWidth E (take m str)) + 1)) maxWidth"

definition lineOk :: "runtime \<Rightarrow> int \<Rightarrow> jstr \<Rightarrow> bool" where
  "lineOk E w l \<longleftrightarrow> int (stringWidth E l) \<le> w"

text \<open>
  The number of columns that the hiding loop leaves of \<open>n\<close>, in closed form, and the
  fold of \<open>maxIndex\<close> up to an index; both are used to state what the loops compute.
\<close>

definition visibleCount :: "int \<Rightarrow> nat \<Rightarrow> nat" where
  "visibleCount termWidth n = min n (max 1 (nat ((termWidth - 1) div 6)))"

definition maxFold :: "jsnum list \<Rightarrow> nat \<Rightarrow> nat" where
  "maxFold ws b = foldl (\<lambda>maxIdx i. if gt_num (ws ! i) (ws ! maxIdx) then i else maxIdx) 0 [1..<b]"

text \<open>\<open>printTable(rows)\<close>: no option is given.\<close>

definition defaultOptions :: options where
  "defaultOptions = \<lparr> maxRows = None, title = None, totalRows = None, fullContent = False \<rparr>"

text \<open>
  Names for what the drawing statements produce, used to state the properties of
  \<open>printTable\<close>. A width is drawable when \<open>w < 0\<close> is false, so that
  \<open>repeat\<close> does not throw; \<open>expandLast\<close> is the widening of the last column for
  the title; \<open>ruleOf\<close> is the rule of one column, \<open>borderText\<close> a border without
  styling, \<open>topText\<close>, \<open>separatorText\<close> and \<open>infoLine\<close> the top line, the
  separator and the trailer line, \<open>bodyLines\<close> the lines of the data rows, and
  \<open>columnsNote\<close> the part of the trailer text about hidden columns.
\<close>

definition drawable :: "jsnum \<Rightarrow> bool" where
  "drawable w \<longleftrightarrow> \<not> lt_num w (Num 0)"

definition expandLast :: "jsnum list \<Rightarrow> jsnum \<Rightarrow> jsnum \<Rightarrow> jsnum list" where
  "expandLast ws innerWidth contentWidth =
     (if gt_num innerWidth contentWidth \<and> length ws > 0
      then ws [length ws - 1 := add_num (ws ! (length ws - 1)) (sub_num innerWidth contentWidth)]
      else ws)"

definition ruleOf :: "jsnum \<Rightarrow> jstr" where
  "ruleOf w = (case w of NaN \<Rightarrow> [] | Num k \<Rightarrow> replicate (nat k) BOX_horizontal)"

definition borderText :: "nat \<Rightarrow> nat \<Rightarrow> nat \<Rightarrow> jsnum list \<Rightarrow> jstr" where
  "borderText left cross right ws =
     [left, BOX_horizontal] @ join [BOX_horizontal, cross, BOX_horizontal] (map ruleOf ws)
     @ [BOX_horizontal, right]"

definition topText :: "runtime \<Rightarrow> jstr option \<Rightarrow> jsnum list \<Rightarrow> jstr" where
  "topText E t ws =
     (if hasTitle t then
        dim E @ take 2 (borderText BOX_topLeft BOX_topCross BOX_topRight ws) @ reset E @ bold E
        @ ([SPACE] @ the t @ [SPACE]) @ reset E @ dim E
        @ drop (2 + stringWidth E ([SPACE] @ the t @ [SPACE]))
            (borderText BOX_topLeft BOX_topCross BOX_topRight ws)
        @ reset E
      else dim E @ borderText BOX_topLeft BOX_topCross BOX_topRight ws @ reset E)"

definition separatorText :: "runtime \<Rightarrow> jsnum list \<Rightarrow> jstr" where
  "separatorText E ws = dim E @ borderText BOX_headerLeft BOX_headerCross BOX_headerRight ws @ reset E"

definition bodyLines :: "runtime \<Rightarrow> options \<Rightarrow> layout \<Rightarrow> jstr list" where
  "bodyLines E opts L =
     (if fullContent opts
      then concat (map (\<lambda>rowIdx.
                      wrappedRow E (lIsNumeric L) (lWidths L) (lRows L ! rowIdx)
                      @ (if int rowIdx < int (length (lRows L)) - 1
                         then [separatorText E (lWidths L)] else []))
                   [0..<length (lRows L)])
      else map (cellsLine E (lIsNumeric L) (lWidths L)) (lRows L))"

definition infoLine :: "runtime \<Rightarrow> layout \<Rightarrow> jstr" where
  "infoLine E L =
     dim E @ [BOX_vertical, SPACE]
     @ padRight E (truncate E (lInfoText L) (lInnerWidth L)) (lInnerWidth L)
     @ [SPACE, BOX_vertical] @ reset E"

definition columnsNote :: "nat \<Rightarrow> jstr" where
  "columnsNote hiddenCols =
     (if hiddenCols > 0
      then js '', '' @ showNat hiddenCols @ js '' more column'' @ (if hiddenCols > 1 then js ''s'' else [])
      else [])"

text \<open>Rows with the single column \<open>id\<close>, holding the given numbers.\<close>

definition idRows :: "int list \<Rightarrow> row list" where
  "idRows ids = map (\<lambda>i. [(js ''id'', VNumber i)]) ids"

text \<open>
  What the property of the drawn lines assumes of the display width, relative to a set
  \<open>S\<close> of code units on which the width is taken to behave code unit by code unit. A text
  is styled over \<open>S\<close> when each escape character in it opens a complete styling sequence
  (the escape character, a bracket, one or more digits and semicolons, the letter \<open>m\<close>) and every
  other code unit is in \<open>S\<close>. The assumption: \<open>S\<close> holds neither the escape character nor
  the line break; it holds the printable ASCII characters, the ellipsis and the box glyphs,
  each one column wide; the styling sequences in use (none when colour is off) take no
  column; and the width of two styled texts put together is the sum of their widths.
\<close>

definition boxGlyphs :: "nat list" where
  "boxGlyphs = [BOX_topLeft, BOX_topRight, BOX_bottomLeft, BOX_bottomRight, BOX_horizontal,
                BOX_vertical, BOX_headerLeft, BOX_headerRight, BOX_headerCross, BOX_topCross,
                BOX_bottomCross]"

fun styledFrom :: "nat set \<Rightarrow> scan \<Rightarrow> jstr \<Rightarrow> bool" where
  "styledFrom S st [] = (st = Normal)"
| "styledFrom S st (c # cs) =
     (case st of
        Normal \<Rightarrow> if c = 27 then styledFrom S AfterEsc cs else c \<in> S \<and> styledFrom S Normal cs
      | AfterEsc \<Rightarrow> c = 91 \<and> cs \<noteq> [] \<and> hd cs \<noteq> 109 \<and> styledFrom S InCsi cs
      | InCsi \<Rightarrow> if c = 109 then styledFrom S Normal cs
                 else 48 \<le> c \<and> c \<le> 59 \<and> styledFrom S InCsi cs)"

definition styled :: "nat set \<Rightarrow> jstr \<Rightarrow> bool" where
  "styled S s = styledFrom S Normal s"

definition lineModel :: "runtime \<Rightarrow> nat set \<Rightarrow> bool" where
  "lineModel E S \<longleftrightarrow>
     27 \<notin> S \<and> NEWLINE \<notin> S \<and>
     (\<forall>c. 32 \<le> c \<and> c \<le> 126 \<longrightarrow> c \<in> S \<and> stringWidth E [c] = 1) \<and>
     list_all (\<lambda>c. c \<in> S \<and> stringWidth E [c] = 1) (ELLIPSIS # boxGlyphs) \<and>
     stringWidth E (dim E) = 0 \<and> stringWidth E (reset E) = 0 \<and> stringWidth E (bold E) = 0 \<and>
     (\<forall>a b. styled S a \<and> styled S b \<longrightarrow> stringWidth E (a @ b) = stringWidth E a + stringWidth E b)"

text \<open>
  A text fit for a cell of a given width: its code units are in \<open>S\<close> (it holds no escape
  character), or it is styled and not wider than the cell, so that it is drawn as it is.
\<close>

definition cellOk :: "runtime \<Rightarrow> nat set \<Rightarrow> jstr \<Rightarrow> jsnum \<Rightarrow> bool" where
  "cellOk E S val w \<longleftrightarrow> set val \<subseteq> S \<or> (styled S val \<and> le_num (sw E val) w)"

text \<open>A styled text of a given width.\<close>

definition wide :: "runtime \<Rightarrow> nat set \<Rightarrow> jstr \<Rightarrow> int \<Rightarrow> bool" where
  "wide E S s n \<longleftrightarrow> styled S s \<and> int (stringWidth E s) = n"

text \<open>\<open>colWidths\<close> of \<open>printTable\<close>: the natural width of each column of the displayed rows.\<close>

definition colWidthsOf :: "runtime \<Rightarrow> options \<Rightarrow> row list \<Rightarrow> int list" where
  "colWidthsOf E opts rows =
     (let displayRows = displayRowsOf opts rows;
          allColumns = map fst (hd displayRows)
      in naturalWidths E allColumns (map (formatRow E allColumns) displayRows))"

text \<open>The layout that \<open>printTable\<close> computes for its input, and the width of every line of a box.\<close>

definition layoutOf :: "runtime \<Rightarrow> options \<Rightarrow> row list \<Rightarrow> layout" where
  "layoutOf E opts rows =
     (let displayRows = displayRowsOf opts rows
      in tableLayout E opts (length rows) displayRows (map fst (hd displayRows)))"

definition boxWidth :: "int list \<Rightarrow> int" where
  "boxWidth ks = (if ks = [] then 4 else 4 + sum_list ks + 3 * (int (length ks) - 1))"

section \<open>Evaluation on concrete inputs\<close>

lemma js_simps: "js [] = []" "js (c # cs) = of_char c # js cs"
  by (simp_all add: js_def)

lemmas string_eval = js_simps plainRuntime_def plainWidth_def charWidth_def sw_def Let_def
  ELLIPSIS_def SPACE_def NEWLINE_def gt_num_def ge_num_def
  truncate_def truncateLoop.simps
  wrapLines_def tokens.simps cutLoop.simps wrapFragment.simps

lemmas layout_eval =
  compressWidths_def fairShare_def shrinkLoop.simps sum_num_def maxIndex_def minColWidth_def
  hideColumns_def hideLoop.simps naturalWidths_def raiseWidths_def formatRow_def formatValue_def
  getProp_def escapeNewlines_def isNumericValue_def sliceTo_def hasTitle_def dim_def reset_def
  bold_def getTerminalWidth_def infoText_def showInt_def showNat.simps tableLayout_def
  displayRowsOf_def defaultOptions_def plainInspect_def objectPrototype_def upt_conv_Cons

lemma replicate_num: "replicate (numeral k) x = x # replicate (pred_numeral k) x"
  by (simp add: numeral_eq_Suc)

lemmas draw_eval =
  printTable_def drawTable_def emptyTable_def trailer_def fullContentRows_def wrappedRow_def
  cellsLine_def framed_def separator_def alignCell_def topLine_def dimmed_def border_def
  repeat_def padRight_def padLeft_def
  BOX_topLeft_def BOX_topRight_def BOX_bottomLeft_def BOX_bottomRight_def BOX_horizontal_def
  BOX_vertical_def BOX_headerLeft_def BOX_headerRight_def BOX_headerCross_def BOX_topCross_def
  BOX_bottomCross_def

lemmas eval_all = string_eval layout_eval draw_eval idRows_def replicate_num

lemmas colour_eval = colourRuntime_def ansiWidth_def colourInspect_def DIM_def RESET_def BOLD_def

section \<open>Properties of truncate\<close>

lemma truncateLoop_result:
  "truncateLoop E str maxWidth low high = low \<or>
   fits E str maxWidth (truncateLoop E str maxWidth low high)"
proof (induction E str maxWidth low high rule: truncateLoop.induct)
  case (1 E str maxWidth low high)
  let ?mid = "(low + high + 1) div 2"
  show ?case
  proof (cases "low < high")
    case False
    then show ?thesis using truncateLoop.simps [of E str maxWidth low high] by simp
  next
    case True
    show ?thesis
    proof (cases "fits E str maxWidth ?mid")
      case up: True
      then have eq: "truncateLoop E str maxWidth low high = truncateLoop E str maxWidth ?mid high"
        using True truncateLoop.simps [of E str maxWidth low high] by (simp add: fits_def Let_def)
      from "1.IH"(1) [OF True refl] up
      have "truncateLoop E str maxWidth ?mid high = ?mid \<or>
            fits E str maxWidth (truncateLoop E str maxWidth ?mid high)"
        by (simp add: fits_def)
      with up eq show ?thesis by auto
    next
      case down: False
      then have eq: "truncateLoop E str maxWidth low high = truncateLoop E str maxWidth low (?mid - 1)"
        using True truncateLoop.simps [of E str maxWidth low high] by (simp add: fits_def Let_def)
      from "1.IH"(2) [OF True refl] down
      have "truncateLoop E str maxWidth low (?mid - 1) = low \<or>
            fits E str maxWidth (truncateLoop E str maxWidth low (?mid - 1))"
        by (simp add: fits_def)
      with eq show ?thesis by simp
    qed
  qed
qed

lemma truncateLoop_none:
  "\<forall>m. \<not> fits E str maxWidth m \<Longrightarrow> truncateLoop E str maxWidth low high = low"
  using truncateLoop_result [of E str maxWidth low high] by auto

lemma truncate_cut:
  "\<not> le_num (sw E str) maxWidth \<Longrightarrow>
   truncate E str maxWidth = take (truncateLoop E str maxWidth 0 (length str)) str @ ellipsisTail E"
  by (simp add: truncate_def ellipsisTail_def Let_def)

lemma truncate_fits:
  "le_num (sw E str) maxWidth \<Longrightarrow> truncate E str maxWidth = str"
  by (simp add: truncate_def)

lemma truncate_width_le:
  assumes e: "ellipsisOneColumn E" and w: "1 \<le> w"
  shows "int (stringWidth E (truncate E str (Num w))) \<le> w"
proof (cases "le_num (sw E str) (Num w)")
  case True
  then show ?thesis by (simp add: truncate_fits sw_def)
next
  case False
  let ?low = "truncateLoop E str (Num w) 0 (length str)"
  have "int (stringWidth E (take ?low str)) + 1 \<le> w"
  proof (cases "?low = 0")
    case True
    with e w show ?thesis by (simp add: ellipsisOneColumn_def)
  next
    case False
    with truncateLoop_result [of E str "Num w" 0 "length str"]
    show ?thesis by (simp add: fits_def)
  qed
  moreover have "stringWidth E (take ?low str @ ellipsisTail E) \<le> stringWidth E (take ?low str) + 1"
    using e by (simp add: ellipsisOneColumn_def)
  ultimately show ?thesis using False by (simp add: truncate_cut)
qed

lemma truncate_zero:
  assumes "0 < stringWidth E str"
  shows "truncate E str (Num 0) = ellipsisTail E"
proof -
  have "\<forall>m. \<not> fits E str (Num 0) m" by (simp add: fits_def)
  then have "truncateLoop E str (Num 0) 0 (length str) = 0" by (rule truncateLoop_none)
  moreover have "\<not> le_num (sw E str) (Num 0)" using assms by (simp add: sw_def)
  ultimately show ?thesis by (simp add: truncate_cut)
qed

lemma truncate_twice:
  assumes e: "ellipsisOneColumn E"
  shows "truncate E (truncate E s (Num (int w))) (Num (int w)) = truncate E s (Num (int w))"
proof (cases "w = 0")
  case False
  then have "1 \<le> int w" by simp
  from truncate_width_le [OF e this, of s]
  have "le_num (sw E (truncate E s (Num (int w)))) (Num (int w))" by (simp add: sw_def)
  then show ?thesis by (rule truncate_fits)
next
  case True
  show ?thesis
  proof (cases "0 < stringWidth E s")
    case False
    then have "le_num (sw E s) (Num (int w))" by (simp add: sw_def)
    then show ?thesis by (simp add: truncate_fits)
  next
    case pos: True
    then have r: "truncate E s (Num 0) = ellipsisTail E" by (rule truncate_zero)
    show ?thesis
    proof (cases "0 < stringWidth E (ellipsisTail E)")
      case True
      then show ?thesis using r \<open>w = 0\<close> by (simp add: truncate_zero)
    next
      case False
      then have "le_num (sw E (ellipsisTail E)) (Num 0)" by (simp add: sw_def)
      then show ?thesis using r \<open>w = 0\<close> by (simp add: truncate_fits)
    qed
  qed
qed

lemma plain_additive: "plainWidth (a @ b) = plainWidth a + plainWidth b"
  by (simp add: plainWidth_def)

lemma plain_ellipsis: "ellipsisOneColumn (plainRuntime c)"
  by (simp add: ellipsisOneColumn_def plainRuntime_def ellipsisTail_def plain_additive)
     (simp add: plainWidth_def charWidth_def ELLIPSIS_def)

text \<open>
  C5, as the code has it. A text that fits comes back unchanged, for every maximal
  width. For a maximal width of at least 1, on a runtime where the appended ellipsis
  adds at most one column, the result is at most that wide. (For the width 0 the
  function still appends the ellipsis, so the result is one column wide.)
\<close>

theorem truncate_display_width:
  "(stringWidth E text \<le> maxWidth \<longrightarrow> truncate E text (Num (int maxWidth)) = text) \<and>
   (ellipsisOneColumn E \<and> 1 \<le> maxWidth \<longrightarrow>
      stringWidth E (truncate E text (Num (int maxWidth))) \<le> maxWidth)"
proof (intro conjI impI)
  assume "stringWidth E text \<le> maxWidth"
  then have "le_num (sw E text) (Num (int maxWidth))" by (simp add: sw_def)
  then show "truncate E text (Num (int maxWidth)) = text" by (rule truncate_fits)
next
  assume "ellipsisOneColumn E \<and> 1 \<le> maxWidth"
  then have "int (stringWidth E (truncate E text (Num (int maxWidth)))) \<le> int maxWidth"
    by (intro truncate_width_le) simp_all
  then show "stringWidth E (truncate E text (Num (int maxWidth))) \<le> maxWidth" by simp
qed

theorem truncate_display_width_witness:
  "stringWidth (plainRuntime 120) (js ''hello'') \<le> 5 \<and>
   truncate (plainRuntime 120) (js ''hello'') (Num 5) = js ''hello'' \<and>
   ellipsisOneColumn (plainRuntime 120) \<and>
   \<not> stringWidth (plainRuntime 120) (js ''hello world'') \<le> 5 \<and>
   stringWidth (plainRuntime 120) (truncate (plainRuntime 120) (js ''hello world'') (Num 5)) \<le> 5"
proof -
  have a: "stringWidth (plainRuntime 120) (js ''hello'') \<le> 5" by (simp add: string_eval)
  have b: "\<not> stringWidth (plainRuntime 120) (js ''hello world'') \<le> 5" by (simp add: string_eval)
  have c: "ellipsisOneColumn (plainRuntime 120)" by (rule plain_ellipsis)
  from truncate_display_width [of "plainRuntime 120" "js ''hello''" 5] a
  have d: "truncate (plainRuntime 120) (js ''hello'') (Num 5) = js ''hello''" by simp
  from truncate_display_width [of "plainRuntime 120" "js ''hello world''" 5] c
  have e: "stringWidth (plainRuntime 120) (truncate (plainRuntime 120) (js ''hello world'') (Num 5)) \<le> 5"
    by simp
  from a b c d e show ?thesis by blast
qed

text \<open>
  C5 as stated fails at the maximal width 0: the text \<open>a\<close> becomes the ellipsis,
  which is one column wide.
\<close>

theorem truncate_zero_width_counterexample:
  "truncate (plainRuntime 120) (js ''a'') (Num (int 0)) = [ELLIPSIS] \<and>
   \<not> stringWidth (plainRuntime 120) (truncate (plainRuntime 120) (js ''a'') (Num (int 0))) \<le> 0"
  by (simp add: string_eval)

text \<open>
  C8: truncating twice at the same width is truncating once, on a runtime where the
  appended ellipsis adds at most one column.
\<close>

theorem truncate_idempotent:
  "ellipsisOneColumn E \<Longrightarrow>
   truncate E (truncate E s (Num (int w))) (Num (int w)) = truncate E s (Num (int w))"
  by (rule truncate_twice)

theorem truncate_idempotent_witness:
  "ellipsisOneColumn (plainRuntime 120) \<and>
   truncate (plainRuntime 120) (truncate (plainRuntime 120) (js ''hello world'') (Num (int 5))) (Num (int 5))
     = js ''hell'' @ [ELLIPSIS] \<and>
   truncate (plainRuntime 120) (js ''hello world'') (Num (int 5)) = js ''hell'' @ [ELLIPSIS]"
proof -
  have c: "ellipsisOneColumn (plainRuntime 120)" by (rule plain_ellipsis)
  have v: "truncate (plainRuntime 120) (js ''hello world'') (Num (int 5)) = js ''hell'' @ [ELLIPSIS]"
    by (simp add: string_eval)
  from truncate_idempotent [OF c, of "js ''hello world''" 5] v c show ?thesis by simp
qed

section \<open>Properties of wrapLines\<close>

lemma cutLoop_le: "cutPoint \<le> length fragment \<Longrightarrow> cutLoop E maxWidth fragment cutPoint \<le> length fragment"
proof (induction E maxWidth fragment cutPoint rule: cutLoop.induct)
  case (1 E maxWidth fragment cutPoint)
  show ?case
  proof (cases "cutPoint < length fragment \<and> lt_num (sw E (take cutPoint fragment)) maxWidth")
    case True
    with 1 show ?thesis using cutLoop.simps [of E maxWidth fragment cutPoint] by simp
  next
    case False
    with 1 show ?thesis using cutLoop.simps [of E maxWidth fragment cutPoint] by auto
  qed
qed

lemma cutLoop_stop:
  "cutLoop E maxWidth fragment cutPoint = cutPoint \<or>
   lt_num (sw E (take (cutLoop E maxWidth fragment cutPoint - 1) fragment)) maxWidth"
proof (induction E maxWidth fragment cutPoint rule: cutLoop.induct)
  case (1 E maxWidth fragment cutPoint)
  show ?case
  proof (cases "cutPoint < length fragment \<and> lt_num (sw E (take cutPoint fragment)) maxWidth")
    case True
    then have eq: "cutLoop E maxWidth fragment cutPoint = cutLoop E maxWidth fragment (cutPoint + 1)"
      using cutLoop.simps [of E maxWidth fragment cutPoint] by simp
    from 1 True
    have "cutLoop E maxWidth fragment (cutPoint + 1) = cutPoint + 1 \<or>
          lt_num (sw E (take (cutLoop E maxWidth fragment (cutPoint + 1) - 1) fragment)) maxWidth"
      by simp
    with True eq show ?thesis by auto
  next
    case False
    then show ?thesis using cutLoop.simps [of E maxWidth fragment cutPoint] by auto
  qed
qed

lemma narrow_take_Suc:
  assumes n: "narrow E s" and k: "k < length s"
  shows "stringWidth E (take (Suc k) s) \<le> stringWidth E (take k s) + 1"
proof -
  have "take (Suc k) s = take k s @ [s ! k]" using k by (simp add: take_Suc_conv_app_nth)
  moreover have "stringWidth E (take k s @ [s ! k]) \<le> stringWidth E (take k s) + 1"
    using n k by (simp add: narrow_def)
  ultimately show ?thesis by simp
qed

lemma cut_piece_width:
  assumes a: "stringWidth E [] = 0" and n: "narrow E fragment" and f: "fragment \<noteq> []" and w: "1 \<le> w"
  shows "int (stringWidth E (take (cutLoop E (Num w) fragment 1) fragment)) \<le> w"
proof -
  let ?r = "cutLoop E (Num w) fragment 1"
  have r1: "1 \<le> ?r" by (rule cutLoop_ge)
  have rl: "?r \<le> length fragment" using f by (intro cutLoop_le) (cases fragment, auto)
  show ?thesis
  proof (cases "?r = 1")
    case True
    from narrow_take_Suc [OF n, of 0] f a w True show ?thesis
      by simp
  next
    case False
    with cutLoop_stop [of E "Num w" fragment 1]
    have lt: "int (stringWidth E (take (?r - 1) fragment)) < w" by (simp add: sw_def)
    from r1 rl False have k: "?r - 1 < length fragment" by simp
    from narrow_take_Suc [OF n k] r1 have "stringWidth E (take ?r fragment) \<le> stringWidth E (take (?r - 1) fragment) + 1"
      by simp
    with lt show ?thesis by simp
  qed
qed

lemma narrow_drop: "narrow E s \<Longrightarrow> narrow E (drop k s)"
  by (auto simp: narrow_def dest: in_set_dropD)


lemma wrapFragment_ok:
  "narrow E fragment \<Longrightarrow> lineOk E w current \<Longrightarrow> \<forall>l \<in> set lines. lineOk E w l \<Longrightarrow>
   stringWidth E [] = 0 \<Longrightarrow> 1 \<le> w \<Longrightarrow>
   lineOk E w (fst (wrapFragment E (Num w) current fragment lines)) \<and>
   (\<forall>l \<in> set (snd (wrapFragment E (Num w) current fragment lines)). lineOk E w l)"
proof (induction E "Num w" current fragment lines rule: wrapFragment.induct)
  case (1 E current fragment lines)
  note eq = wrapFragment.simps [of E "Num w" current fragment lines]
  note a = "1.prems"(4) and w = "1.prems"(5)
  have empty_ok: "lineOk E w []"
    using w a by (simp add: lineOk_def)
  show ?case
  proof (cases "length fragment > 0")
    case False
    then have "wrapFragment E (Num w) current fragment lines = (current, lines)"
      using eq by simp
    then show ?thesis using "1.prems" by simp
  next
    case nonempty: True
    show ?thesis
    proof (cases "gt_num (sw E (current @ fragment)) (Num w)")
      case False
      then have step: "wrapFragment E (Num w) current fragment lines =
                       wrapFragment E (Num w) (current @ fragment) [] lines"
        using eq nonempty by simp
      have ok: "lineOk E w (current @ fragment)"
        using False by (simp add: lineOk_def gt_num_def sw_def)
      have nar: "narrow E []" by (simp add: narrow_def)
      from "1.hyps"(3) [OF nonempty False nar ok "1.prems"(3) a w]
      show ?thesis unfolding step .
    next
      case over: True
      show ?thesis
      proof (cases "length current > 0")
        case True
        then have step: "wrapFragment E (Num w) current fragment lines =
                         wrapFragment E (Num w) [] fragment (lines @ [current])"
          using eq nonempty over by simp
        have ok: "\<forall>l \<in> set (lines @ [current]). lineOk E w l"
          using "1.prems" by simp
        from "1.hyps"(1) [OF nonempty over True "1.prems"(1) empty_ok ok a w]
        show ?thesis unfolding step .
      next
        case False
        let ?cut = "cutLoop E (Num w) fragment 1"
        from False have step: "wrapFragment E (Num w) current fragment lines =
                         wrapFragment E (Num w) current (drop ?cut fragment) (lines @ [take ?cut fragment])"
          using eq nonempty over by (simp add: Let_def)
        have "lineOk E w (take ?cut fragment)"
          using cut_piece_width [OF a "1.prems"(1) _ w] nonempty by (simp add: lineOk_def)
        then have ok: "\<forall>l \<in> set (lines @ [take ?cut fragment]). lineOk E w l"
          using "1.prems" by simp
        from "1.hyps"(2) [OF nonempty over False refl narrow_drop [OF "1.prems"(1)] "1.prems"(2) ok a w]
        show ?thesis unfolding step .
      qed
    qed
  qed
qed

lemma concat_tokens: "concat (tokens s) = s"
proof (induction s rule: tokens.induct)
  case (1 s)
  let ?rest = "dropWhile (\<lambda>c. c \<noteq> SPACE) s"
  show ?case
  proof (cases "?rest = []")
    case True
    then have "tokens s = [takeWhile (\<lambda>c. c \<noteq> SPACE) s]"
      using tokens.simps [of s] by (simp add: Let_def)
    moreover have "takeWhile (\<lambda>c. c \<noteq> SPACE) s @ ?rest = s" by simp
    ultimately show ?thesis using True by simp
  next
    case False
    then have "tokens s = takeWhile (\<lambda>c. c \<noteq> SPACE) s # takeWhile (\<lambda>c. c = SPACE) ?rest
                 # tokens (dropWhile (\<lambda>c. c = SPACE) ?rest)"
      using tokens.simps [of s] by (simp add: Let_def)
    moreover have "concat (tokens (dropWhile (\<lambda>c. c = SPACE) ?rest)) = dropWhile (\<lambda>c. c = SPACE) ?rest"
      using "1.IH" [OF refl refl False] .
    ultimately have "concat (tokens s) = takeWhile (\<lambda>c. c \<noteq> SPACE) s @
        (takeWhile (\<lambda>c. c = SPACE) ?rest @ dropWhile (\<lambda>c. c = SPACE) ?rest)"
      by simp
    then show ?thesis by (simp only: takeWhile_dropWhile_id)
  qed
qed

lemma wrapTokens_ok:
  assumes a: "stringWidth E [] = 0" and w: "1 \<le> w"
  shows "\<forall>t \<in> set toks. narrow E t \<Longrightarrow> lineOk E w current \<Longrightarrow> \<forall>l \<in> set lines. lineOk E w l \<Longrightarrow>
         lineOk E w (fst (wrapTokens E (Num w) toks current lines)) \<and>
         (\<forall>l \<in> set (snd (wrapTokens E (Num w) toks current lines)). lineOk E w l)"
proof (induction toks arbitrary: current lines)
  case Nil
  then show ?case by simp
next
  case (Cons token rest)
  obtain c' ls' where r: "wrapFragment E (Num w) current token lines = (c', ls')"
    by (cases "wrapFragment E (Num w) current token lines")
  from wrapFragment_ok [of E token w current lines] Cons.prems r a w
  have ok: "lineOk E w c'" "\<forall>l \<in> set ls'. lineOk E w l" by simp_all
  have empty_ok: "lineOk E w []"
    using w a by (simp add: lineOk_def)
  show ?case
  proof (cases "ge_num (sw E c') (Num w)")
    case True
    have "\<forall>l \<in> set (ls' @ [c']). lineOk E w l" using ok by simp
    from Cons.IH [OF _ empty_ok this] Cons.prems(1) True r show ?thesis by simp
  next
    case False
    from Cons.IH [OF _ ok] Cons.prems(1) False r show ?thesis by simp
  qed
qed

lemma wrapLines_ok:
  assumes a: "stringWidth E [] = 0" and w: "1 \<le> w" and n: "narrow E text" and s: "narrow E [SPACE]"
  shows "\<forall>l \<in> set (wrapLines E text (Num w)). lineOk E w l"
proof -
  let ?raw = "map (\<lambda>c. if c = NEWLINE then SPACE else c) text"
  have empty_ok: "lineOk E w []"
    using w a by (simp add: lineOk_def)
  have nr: "narrow E ?raw" using n s by (auto simp: narrow_def)
  have "\<forall>t \<in> set (tokens ?raw). narrow E t"
  proof
    fix t assume "t \<in> set (tokens ?raw)"
    then have "set t \<subseteq> set (concat (tokens ?raw))" by auto
    then show "narrow E t" using nr by (auto simp: concat_tokens narrow_def)
  qed
  from wrapTokens_ok [OF a w this empty_ok, of "[]"]
  have *: "lineOk E w (fst (wrapTokens E (Num w) (tokens ?raw) [] [])) \<and>
        (\<forall>l \<in> set (snd (wrapTokens E (Num w) (tokens ?raw) [] [])). lineOk E w l)"
    by simp
  obtain c ls where r: "wrapTokens E (Num w) (tokens ?raw) [] [] = (c, ls)"
    by (cases "wrapTokens E (Num w) (tokens ?raw) [] []")
  show ?thesis
  proof (cases "?raw = []")
    case True
    then show ?thesis using empty_ok by (simp add: wrapLines_def)
  next
    case False
    then have "wrapLines E text (Num w) = (if length c > 0 then ls @ [c] else ls)"
      using r by (simp add: wrapLines_def Let_def)
    then show ?thesis using * r by auto
  qed
qed

lemma wrapLines_empty: "wrapLines E [] maxWidth = [[]]"
  by (simp add: wrapLines_def)

text \<open>
  What the wrapping achieves. Empty input gives exactly one empty line. For a maximal width
  of at least 1 and a text each of whose code units (and the space) adds at most one column
  to what it is appended to, every line is at most that wide.
\<close>

lemma wrapLines_narrow_width:
  "wrapLines E [] maxWidth = [[]] \<and>
   (stringWidth E [] = 0 \<and> narrow E text \<and> narrow E [SPACE] \<and> 1 \<le> w \<longrightarrow>
      (\<forall>line \<in> set (wrapLines E text (Num (int w))). stringWidth E line \<le> w))"
proof (intro conjI impI)
  show "wrapLines E [] maxWidth = [[]]" by (rule wrapLines_empty)
next
  assume h: "stringWidth E [] = 0 \<and> narrow E text \<and> narrow E [SPACE] \<and> 1 \<le> w"
  then have "\<forall>l \<in> set (wrapLines E text (Num (int w))). lineOk E (int w) l"
    by (intro wrapLines_ok) simp_all
  then show "\<forall>line \<in> set (wrapLines E text (Num (int w))). stringWidth E line \<le> w"
    by (simp add: lineOk_def)
qed

text \<open>
  C6 fails on the code. The hard split of a word that is wider than the column tests the
  width of the piece before it adds the next code unit, so a glyph two columns wide takes
  the piece one column past the maximal width: three CJK ideographs wrapped at width 3 give
  a first line of two ideographs, 4 columns wide. \<open>printTable\<close> reaches this in
  full-content mode: on a terminal of 7 columns the only column is 3 columns wide, the
  overlong line is then truncated, and the second ideograph is not drawn at all.
\<close>

theorem wrapLines_overshoot:
  "wrapLines (plainRuntime 7) [26085, 26412, 35486] (Num 3) = [[26085, 26412], [35486]] \<and>
   stringWidth (plainRuntime 7) [26085, 26412] = 4 \<and>
   lWidths (tableLayout (plainRuntime 7) (defaultOptions \<lparr> fullContent := True \<rparr>) 1
              [[(js ''t'', VString [26085, 26412, 35486])]] [js ''t'']) = [Num 3] \<and>
   printTable (plainRuntime 7) [[(js ''t'', VString [26085, 26412, 35486])]]
     (defaultOptions \<lparr> fullContent := True \<rparr>) =
   ([[BOX_topLeft, BOX_horizontal, BOX_horizontal, BOX_horizontal, BOX_horizontal, BOX_horizontal,
      BOX_topRight],
     [BOX_vertical] @ js '' t   '' @ [BOX_vertical],
     [BOX_headerLeft, BOX_horizontal, BOX_horizontal, BOX_horizontal, BOX_horizontal, BOX_horizontal,
      BOX_headerRight],
     [BOX_vertical, SPACE, 26085, ELLIPSIS, SPACE, BOX_vertical],
     [BOX_vertical, SPACE, 35486, SPACE, SPACE, BOX_vertical],
     [BOX_bottomLeft, BOX_horizontal, BOX_horizontal, BOX_horizontal, BOX_horizontal, BOX_horizontal,
      BOX_bottomRight]],
    None)"
  by (simp add: eval_all)

section \<open>Column hiding\<close>

lemma hideLoop_spec:
  "available = termWidth - (4 + (int (length columns) - 1) * 3) \<Longrightarrow>
   hideLoop termWidth columns hiddenCols available =
     (take (visibleCount termWidth (length columns)) columns,
      hiddenCols + (length columns - visibleCount termWidth (length columns)),
      termWidth - (4 + (int (visibleCount termWidth (length columns)) - 1) * 3))"
proof (induction termWidth columns hiddenCols available rule: hideLoop.induct)
  case (1 termWidth columns hiddenCols available)
  let ?n = "length columns"
  note eq = hideLoop.simps [of termWidth columns hiddenCols available]
  show ?case
  proof (cases "int ?n * minColWidth > available \<and> ?n > 1")
    case True
    then have big: "termWidth < 6 * int ?n + 1" and n2: "2 \<le> ?n"
      using "1.prems" by (simp_all add: minColWidth_def)
    have step: "hideLoop termWidth columns hiddenCols available =
                hideLoop termWidth (butlast columns) (hiddenCols + 1)
                  (termWidth - (4 + (int (length (butlast columns)) - 1) * 3))"
      using eq True by simp
    have v: "visibleCount termWidth (?n - 1) = visibleCount termWidth ?n"
      using big n2 by (auto simp: visibleCount_def min_def max_def)
    have vle: "visibleCount termWidth ?n \<le> ?n - 1"
      using big n2 by (auto simp: visibleCount_def min_def max_def)
    have "take (visibleCount termWidth ?n) (butlast columns) = take (visibleCount termWidth ?n) columns"
      using vle by (simp add: butlast_conv_take)
    with "1.IH" [OF True refl] v vle n2 show ?thesis
      unfolding step by simp
  next
    case False
    then have stop: "hideLoop termWidth columns hiddenCols available = (columns, hiddenCols, available)"
      using eq by auto
    from False "1.prems" have "?n \<le> 1 \<or> 6 * int ?n + 1 \<le> termWidth"
      by (auto simp: minColWidth_def)
    then have "visibleCount termWidth ?n = ?n"
      by (auto simp: visibleCount_def min_def max_def)
    then show ?thesis using stop "1.prems" by simp
  qed
qed

lemma hideColumns_spec:
  "hideColumns termWidth allColumns =
     (take (visibleCount termWidth (length allColumns)) allColumns,
      length allColumns - visibleCount termWidth (length allColumns),
      termWidth - (4 + (int (visibleCount termWidth (length allColumns)) - 1) * 3))"
  using hideLoop_spec [of _ termWidth allColumns 0] by (simp add: hideColumns_def)

lemma visibleCount_mono: "t1 \<le> t2 \<Longrightarrow> visibleCount t1 n \<le> visibleCount t2 n"
proof -
  assume "t1 \<le> t2"
  then have "(t1 - 1) div 6 \<le> (t2 - 1) div 6" by (intro zdiv_mono1) simp_all
  then have "nat ((t1 - 1) div 6) \<le> nat ((t2 - 1) div 6)" by simp
  then show ?thesis unfolding visibleCount_def by (auto simp: min_def max_def)
qed

lemma visibleCount_le: "visibleCount t n \<le> n"
  by (simp add: visibleCount_def)

lemma visibleCount_pos: "0 < n \<Longrightarrow> 0 < visibleCount t n"
  by (auto simp: visibleCount_def min_def max_def)

text \<open>
  C7: a narrower terminal never shows more columns, and the hiding loop never hides the
  last column: of the columns of a table, at least one remains visible at every terminal
  width.
\<close>

theorem hideColumns_monotone:
  "(t1 \<le> t2 \<longrightarrow>
      length (fst (hideColumns t1 allColumns)) \<le> length (fst (hideColumns t2 allColumns))) \<and>
   (allColumns \<noteq> [] \<longrightarrow> fst (hideColumns t1 allColumns) \<noteq> [])"
proof (intro conjI impI)
  assume "t1 \<le> t2"
  then show "length (fst (hideColumns t1 allColumns)) \<le> length (fst (hideColumns t2 allColumns))"
    using visibleCount_mono [of t1 t2 "length allColumns"] visibleCount_le [of _ "length allColumns"]
    by (simp add: hideColumns_spec min_absorb2)
next
  assume "allColumns \<noteq> []"
  then show "fst (hideColumns t1 allColumns) \<noteq> []"
    using visibleCount_pos [of "length allColumns" t1] by (simp add: hideColumns_spec)
qed

theorem hideColumns_monotone_witness:
  "(30::int) \<le> 120 \<and>
   fst (hideColumns 30 (map js [''a'', ''b'', ''c'', ''d'', ''e'', ''f'', ''g'', ''h''])) = map js [''a'', ''b'', ''c'', ''d''] \<and>
   length (fst (hideColumns 30 (map js [''a'', ''b'', ''c'', ''d'', ''e'', ''f'', ''g'', ''h'']))) \<le>
   length (fst (hideColumns 120 (map js [''a'', ''b'', ''c'', ''d'', ''e'', ''f'', ''g'', ''h'']))) \<and>
   fst (hideColumns 30 (map js [''a'', ''b'', ''c'', ''d'', ''e'', ''f'', ''g'', ''h''])) \<noteq> []"
proof -
  let ?cols = "map js [''a'', ''b'', ''c'', ''d'', ''e'', ''f'', ''g'', ''h'']"
  have v: "fst (hideColumns 30 ?cols) = map js [''a'', ''b'', ''c'', ''d'']"
    by (simp add: hideColumns_def hideLoop.simps minColWidth_def)
  have ne: "?cols \<noteq> []" by simp
  from hideColumns_monotone [of 30 120 ?cols] ne v show ?thesis by simp
qed

text \<open>
  The row \<open>{}\<close> has no key; such a table has no column, and none is shown.
\<close>

lemma hideColumns_no_column: "fst (hideColumns termWidth (map fst ([] :: row))) = []"
  by (simp add: hideColumns_def hideLoop.simps minColWidth_def)

section \<open>Width compression\<close>

lemma maxFold_Suc:
  "1 \<le> b \<Longrightarrow> maxFold ws (Suc b) =
     (if gt_num (ws ! b) (ws ! maxFold ws b) then b else maxFold ws b)"
  by (simp add: maxFold_def)

lemma maxFold_spec:
  "1 \<le> b \<Longrightarrow> b \<le> length ks \<Longrightarrow>
   maxFold (map Num ks) b < b \<and> (\<forall>j < b. ks ! j \<le> ks ! maxFold (map Num ks) b)"
proof (induction b)
  case 0
  then show ?case by simp
next
  case (Suc b)
  show ?case
  proof (cases "b = 0")
    case True
    then show ?thesis by (simp add: maxFold_def)
  next
    case False
    then have b1: "1 \<le> b" and bl: "b \<le> length ks" and blt: "b < length ks" using Suc.prems by simp_all
    from Suc.IH [OF b1 bl]
    have m: "maxFold (map Num ks) b < b" and mx: "\<forall>j < b. ks ! j \<le> ks ! maxFold (map Num ks) b"
      by simp_all
    have ml: "maxFold (map Num ks) b < length ks" using m bl by simp
    show ?thesis
    proof (cases "ks ! maxFold (map Num ks) b < ks ! b")
      case True
      then have "maxFold (map Num ks) (Suc b) = b"
        using maxFold_Suc [OF b1, of "map Num ks"] blt ml by (simp add: gt_num_def)
      moreover have "\<forall>j < Suc b. ks ! j \<le> ks ! b"
        using mx True by (auto simp: less_Suc_eq intro: order_trans less_imp_le)
      ultimately show ?thesis by simp
    next
      case False
      then have "maxFold (map Num ks) (Suc b) = maxFold (map Num ks) b"
        using maxFold_Suc [OF b1, of "map Num ks"] blt ml by (simp add: gt_num_def)
      moreover have "\<forall>j < Suc b. ks ! j \<le> ks ! maxFold (map Num ks) b"
        using mx False by (auto simp: less_Suc_eq)
      ultimately show ?thesis using m by simp
    qed
  qed
qed

lemma maxIndex_spec:
  assumes "ks \<noteq> []"
  shows "maxIndex (map Num ks) < length ks \<and> (\<forall>j < length ks. ks ! j \<le> ks ! maxIndex (map Num ks))"
proof -
  have "maxIndex (map Num ks) = maxFold (map Num ks) (length ks)"
    by (simp add: maxIndex_def maxFold_def)
  moreover have "1 \<le> length ks" using assms by (cases ks) simp_all
  ultimately show ?thesis using maxFold_spec [of "length ks" ks] by simp
qed

lemma sum_num_map: "foldl add_num (Num a) (map Num ks) = Num (a + sum_list ks)"
  by (induction ks arbitrary: a) (simp_all add: add.assoc)

lemma sum_num_Num: "sum_num (map Num ks) = Num (sum_list ks)"
  using sum_num_map [of 0 ks] by (simp add: sum_num_def)

lemma sum_list_update_int:
  "i < length ks \<Longrightarrow> sum_list (ks [i := x]) = sum_list ks - ks ! i + (x::int)"
  by (induction ks arbitrary: i) (auto split: nat.splits)

lemma shrinkLoop_spec:
  "ws = map Num ks \<Longrightarrow> totalWidth = Num (sum_list ks) \<Longrightarrow> \<forall>k \<in> set ks. minColWidth \<le> k \<Longrightarrow>
   \<exists>ks'. shrinkLoop available ws totalWidth = map Num ks' \<and> length ks' = length ks \<and>
         (\<forall>k \<in> set ks'. minColWidth \<le> k) \<and>
         (sum_list ks' \<le> available \<or> (\<forall>k \<in> set ks'. k = minColWidth))"
proof (induction available ws totalWidth arbitrary: ks rule: shrinkLoop.induct)
  case (1 available ws totalWidth)
  note eq = shrinkLoop.simps [of available ws totalWidth]
  show ?case
  proof (cases "gt_num totalWidth (Num available) \<and> list_ex (\<lambda>w. gt_num w (Num minColWidth)) ws")
    case False
    then have stop: "shrinkLoop available ws totalWidth = ws" using eq by auto
    from False "1.prems" have "sum_list ks \<le> available \<or> (\<forall>k \<in> set ks. \<not> minColWidth < k)"
      by (auto simp: gt_num_def list_ex_iff)
    then have "sum_list ks \<le> available \<or> (\<forall>k \<in> set ks. k = minColWidth)"
      using "1.prems"(3) by fastforce
    then show ?thesis using stop "1.prems" by blast
  next
    case True
    let ?m = "maxIndex ws"
    let ?ks = "ks [?m := ks ! ?m - 1]"
    from True "1.prems" obtain k0 where k0: "k0 \<in> set ks" "minColWidth < k0"
      by (auto simp: gt_num_def list_ex_iff)
    then have ne: "ks \<noteq> []" by auto
    from maxIndex_spec [OF ne] "1.prems"(1)
    have ml: "?m < length ks" and mx: "\<forall>j < length ks. ks ! j \<le> ks ! ?m" by simp_all
    from k0 obtain j where "j < length ks" "ks ! j = k0" by (auto simp: in_set_conv_nth)
    with mx k0 have big: "minColWidth < ks ! ?m" by force
    have step: "shrinkLoop available ws totalWidth =
                shrinkLoop available (ws [?m := sub_num (ws ! ?m) (Num 1)]) (sub_num totalWidth (Num 1))"
      using eq True by simp
    have w': "ws [?m := sub_num (ws ! ?m) (Num 1)] = map Num ?ks"
      using "1.prems"(1) ml by (simp add: map_update)
    have "sum_list ?ks = sum_list ks - 1"
      using ml by (simp add: sum_list_update_int)
    then have t': "sub_num totalWidth (Num 1) = Num (sum_list ?ks)"
      using "1.prems"(2) by simp
    have fl: "\<forall>k \<in> set ?ks. minColWidth \<le> k"
    proof
      fix k assume "k \<in> set ?ks"
      then have "k = ks ! ?m - 1 \<or> k \<in> set ks" using set_update_subset_insert [of ks ?m] by auto
      then show "minColWidth \<le> k" using big "1.prems"(3) by auto
    qed
    from "1.IH" [OF True w' t' fl] show ?thesis unfolding step by simp
  qed
qed

lemma raiseWidths_length: "length (raiseWidths E cw f) = length f"
  by (simp add: raiseWidths_def)

lemma raiseWidths_nth:
  "i < length f \<Longrightarrow> raiseWidths E cw f ! i = max (cw ! i) (int (stringWidth E (f ! i)))"
  by (simp add: raiseWidths_def)

lemma foldl_raise_spec:
  "\<forall>f \<in> set fs. length f = length cw \<Longrightarrow>
   length (foldl (raiseWidths E) cw fs) = length cw \<and>
   (\<forall>i < length cw. cw ! i \<le> foldl (raiseWidths E) cw fs ! i \<and>
      (\<forall>f \<in> set fs. int (stringWidth E (f ! i)) \<le> foldl (raiseWidths E) cw fs ! i))"
proof (induction fs arbitrary: cw)
  case Nil
  then show ?case by simp
next
  case (Cons f fs)
  let ?cw = "raiseWidths E cw f"
  have len: "length ?cw = length cw" using Cons.prems by (simp add: raiseWidths_length)
  have "\<forall>g \<in> set fs. length g = length ?cw" using Cons.prems len by simp
  from Cons.IH [OF this]
  have ih: "length (foldl (raiseWidths E) ?cw fs) = length cw"
       "\<forall>i < length cw. ?cw ! i \<le> foldl (raiseWidths E) ?cw fs ! i \<and>
          (\<forall>g \<in> set fs. int (stringWidth E (g ! i)) \<le> foldl (raiseWidths E) ?cw fs ! i)"
    using len by simp_all
  have "\<forall>i < length cw. cw ! i \<le> ?cw ! i \<and> int (stringWidth E (f ! i)) \<le> ?cw ! i"
    using Cons.prems by (simp add: raiseWidths_nth)
  with ih show ?case by (fastforce simp: raiseWidths_nth)
qed

lemma formatRow_length: "length (formatRow E allColumns r) = length allColumns"
  by (simp add: formatRow_def)

lemma naturalWidths_spec:
  assumes "\<forall>f \<in> set formattedRows. length f = length allColumns"
  shows "length (naturalWidths E allColumns formattedRows) = length allColumns"
    and "i < length allColumns \<Longrightarrow>
           int (stringWidth E (allColumns ! i)) \<le> naturalWidths E allColumns formattedRows ! i"
    and "i < length allColumns \<Longrightarrow> f \<in> set formattedRows \<Longrightarrow>
           int (stringWidth E (f ! i)) \<le> naturalWidths E allColumns formattedRows ! i"
  using foldl_raise_spec [of formattedRows "map (\<lambda>col. int (stringWidth E col)) allColumns" E] assms
  by (simp_all add: naturalWidths_def)

lemma naturalWidths_nonneg:
  assumes "\<forall>f \<in> set formattedRows. length f = length allColumns"
  shows "\<forall>v \<in> set (naturalWidths E allColumns formattedRows). 0 \<le> v"
proof
  fix v assume "v \<in> set (naturalWidths E allColumns formattedRows)"
  then obtain i where i: "i < length allColumns" and v: "v = naturalWidths E allColumns formattedRows ! i"
    using naturalWidths_spec(1) [OF assms, of E] by (auto simp: in_set_conv_nth)
  from naturalWidths_spec(2) [OF assms i, of E] v show "0 \<le> v" by simp
qed

lemma compress_keep:
  "sum_list vs \<le> available \<Longrightarrow> compressWidths E available columns vs = map Num vs"
  by (simp add: compressWidths_def)

lemma compress_spec:
  assumes over: "available < sum_list vs" and nz: "\<not> list_all (\<lambda>w. w = 0) vs"
    and len: "length columns = length vs"
  shows "\<exists>ks. compressWidths E available columns vs = map Num ks \<and> length ks = length vs \<and>
           (\<forall>k \<in> set ks. minColWidth \<le> k) \<and>
           (sum_list ks \<le> available \<or> (\<forall>k \<in> set ks. k = minColWidth))"
proof -
  let ?hw = "map (\<lambda>col. max minColWidth (int (stringWidth E col))) columns"
  let ?ks = "map (\<lambda>i. max (?hw ! i) (fairFloor E vs i available)) [0..<length vs]"
  let ?ws = "map (\<lambda>i. max_num (Num (?hw ! i)) (fairShare E vs i available)) [0..<length vs]"
  have ws: "?ws = map Num ?ks" using nz by (simp add: fairShare_def)
  have fl: "\<forall>k \<in> set ?ks. minColWidth \<le> k" using len by auto
  have c: "compressWidths E available columns vs = shrinkLoop available ?ws (sum_num ?ws)"
    using over by (simp add: compressWidths_def Let_def)
  have t: "sum_num ?ws = Num (sum_list ?ks)" unfolding ws by (rule sum_num_Num)
  from shrinkLoop_spec [OF ws t fl, of available] show ?thesis unfolding c by simp
qed





section \<open>The layout and the drawn lines\<close>

lemma shrinkLoop_stop:
  "\<not> list_ex (\<lambda>w. gt_num w (Num minColWidth)) ws \<Longrightarrow> shrinkLoop available ws totalWidth = ws"
  using shrinkLoop.simps [of available ws totalWidth] by simp

lemma compress_nan:
  assumes over: "available < sum_list vs" and z: "list_all (\<lambda>w. w = 0) vs"
  shows "compressWidths E available columns vs = replicate (length vs) NaN"
proof -
  let ?hw = "map (\<lambda>col. max minColWidth (int (stringWidth E col))) columns"
  let ?ws = "map (\<lambda>i. max_num (Num (?hw ! i)) (fairShare E vs i available)) [0..<length vs]"
  have ws: "?ws = replicate (length vs) NaN"
    using z by (simp add: fairShare_def map_replicate_const)
  have "\<not> list_ex (\<lambda>w. gt_num w (Num minColWidth)) ?ws"
    unfolding ws by (simp add: list_ex_iff gt_num_def)
  then have "shrinkLoop available ?ws (sum_num ?ws) = ?ws" by (rule shrinkLoop_stop)
  then show ?thesis using over ws by (simp add: compressWidths_def Let_def)
qed

lemma compress_drawable:
  assumes nn: "\<forall>v \<in> set vs. 0 \<le> v" and len: "length columns = length vs"
  shows "list_all drawable (compressWidths E available columns vs)"
proof (cases "available < sum_list vs")
  case False
  then show ?thesis using nn by (auto simp: compress_keep list_all_iff drawable_def)
next
  case over: True
  show ?thesis
  proof (cases "list_all (\<lambda>w. w = 0) vs")
    case True
    then show ?thesis using over by (simp add: compress_nan list_all_iff drawable_def)
  next
    case False
    from compress_spec [OF over False len, of E] obtain ks where
      "compressWidths E available columns vs = map Num ks" "\<forall>k \<in> set ks. minColWidth \<le> k" by blast
    then show ?thesis by (auto simp: list_all_iff drawable_def minColWidth_def)
  qed
qed

lemma compress_length:
  assumes len: "length columns = length vs"
  shows "length (compressWidths E available columns vs) = length vs"
proof (cases "available < sum_list vs")
  case False
  then show ?thesis by (simp add: compress_keep)
next
  case over: True
  show ?thesis
  proof (cases "list_all (\<lambda>w. w = 0) vs")
    case True
    then show ?thesis using over by (simp add: compress_nan)
  next
    case False
    from compress_spec [OF over False len, of E] show ?thesis by auto
  qed
qed

lemma expandLast_drawable:
  assumes "list_all drawable ws"
  shows "list_all drawable (expandLast ws innerWidth contentWidth)"
proof (cases "gt_num innerWidth contentWidth \<and> length ws > 0")
  case False
  then show ?thesis using assms by (simp add: expandLast_def)
next
  case True
  then obtain a b where ab: "innerWidth = Num a" "contentWidth = Num b" "b < a"
    by (cases innerWidth; cases contentWidth) (simp_all add: gt_num_def)
  let ?l = "ws ! (length ws - 1)"
  have "?l \<in> set ws" using True by simp
  then have "drawable ?l" using assms by (simp add: list_all_iff)
  then have "drawable (add_num ?l (sub_num innerWidth contentWidth))"
    using ab by (cases ?l) (simp_all add: drawable_def)
  then have "\<forall>w \<in> set (ws [length ws - 1 := add_num ?l (sub_num innerWidth contentWidth)]). drawable w"
    using assms set_update_subset_insert [of ws "length ws - 1"] by (auto simp: list_all_iff)
  then show ?thesis using True by (simp add: expandLast_def list_all_iff)
qed

lemma expandLast_length: "length (expandLast ws i c) = length ws"
  by (simp add: expandLast_def)

text \<open>The fields of the layout, with the hiding loop in closed form.\<close>

lemma tableLayout_fields:
  fixes E opts rowCount displayRows allColumns
  defines "v \<equiv> visibleCount (getTerminalWidth E) (length allColumns)"
  defines "natural \<equiv> naturalWidths E allColumns (map (formatRow E allColumns) displayRows)"
  defines "available \<equiv> getTerminalWidth E - (4 + (int v - 1) * 3)"
  defines "ws \<equiv> compressWidths E available (take v allColumns) (take v natural)"
  defines "contentWidth \<equiv> add_num (sum_num ws) (Num ((int v - 1) * 3))"
  defines "titleWidth \<equiv> (if hasTitle (title opts) then int (stringWidth E (the (title opts))) + 4 else 0)"
  defines "innerWidth \<equiv> min_num (max_num contentWidth (Num titleWidth)) (Num (getTerminalWidth E - 4))"
  defines "L \<equiv> tableLayout E opts rowCount displayRows allColumns"
  shows "lColumns L = take v allColumns"
    and "lHiddenCols L = length allColumns - v"
    and "lRows L = map (take v) (map (formatRow E allColumns) displayRows)"
    and "lIsNumeric L = take v (map (\<lambda>col. list_all (\<lambda>r. isNumericValue (getProp E r col)) displayRows) allColumns)"
    and "lWidths L = expandLast ws innerWidth contentWidth"
    and "lInnerWidth L = innerWidth"
    and "lTotalInnerWidth L = add_num innerWidth (Num 2)"
    and "lInfoText L =
           infoText (if (case totalRows opts of None \<Rightarrow> int rowCount | Some t \<Rightarrow> t) > int (length displayRows)
                     then (case totalRows opts of None \<Rightarrow> int rowCount | Some t \<Rightarrow> t) - int (length displayRows)
                     else 0)
                    (length allColumns - v)"
proof -
  have vl: "v \<le> length allColumns" unfolding v_def by (rule visibleCount_le)
  then have m: "min (length allColumns) v = v" by simp
  note defs = L_def tableLayout_def Let_def hideColumns_spec expandLast_def ws_def contentWidth_def
    titleWidth_def innerWidth_def natural_def available_def v_def [symmetric]
  show "lColumns L = take v allColumns" by (simp add: defs m)
  show "lHiddenCols L = length allColumns - v" by (simp add: defs m)
  show "lRows L = map (take v) (map (formatRow E allColumns) displayRows)" by (simp add: defs m)
  show "lIsNumeric L = take v (map (\<lambda>col. list_all (\<lambda>r. isNumericValue (getProp E r col)) displayRows) allColumns)"
    by (simp add: defs m)
  show "lWidths L = expandLast ws innerWidth contentWidth" by (simp add: defs m)
  show "lInnerWidth L = innerWidth" by (simp add: defs m)
  show "lTotalInnerWidth L = add_num innerWidth (Num 2)" by (simp add: defs m)
  show "lInfoText L =
           infoText (if (case totalRows opts of None \<Rightarrow> int rowCount | Some t \<Rightarrow> t) > int (length displayRows)
                     then (case totalRows opts of None \<Rightarrow> int rowCount | Some t \<Rightarrow> t) - int (length displayRows)
                     else 0)
                    (length allColumns - v)" by (simp add: defs m)
qed

lemma repeat_drawable: "drawable w \<Longrightarrow> repeat [BOX_horizontal] w = Inr (ruleOf w)"
  by (cases w) (simp_all add: drawable_def repeat_def ruleOf_def)

lemma repeatAll_drawable: "list_all drawable ws \<Longrightarrow> repeatAll ws = Inr (map ruleOf ws)"
  by (induction ws) (simp_all add: repeat_drawable)

lemma border_drawable:
  "list_all drawable ws \<Longrightarrow> border left cross right ws = Inr (borderText left cross right ws)"
  by (simp add: border_def repeatAll_drawable borderText_def)

lemma topLine_drawable: "list_all drawable ws \<Longrightarrow> topLine E t ws = Inr (topText E t ws)"
  by (simp add: topLine_def border_drawable topText_def Let_def)

lemma separator_drawable:
  "list_all drawable ws \<Longrightarrow>
   dimmed E (border BOX_headerLeft BOX_headerCross BOX_headerRight ws) = Inr (separatorText E ws)"
  by (simp add: dimmed_def border_drawable separatorText_def)

lemma run_Inr: "run (map Inr ls @ rest) = (ls @ fst (run rest), snd (run rest))"
  by (induction ls) (simp_all add: split_beta)

lemma concat_map_Inr: "concat (map (\<lambda>x. map Inr (f x) @ map Inr (g x)) xs) = map Inr (concat (map (\<lambda>x. f x @ g x) xs))"
  by (induction xs) simp_all

lemma fullContentRows_drawable:
  assumes "list_all drawable ws"
  shows "fullContentRows E numeric ws vrows =
         map Inr (concat (map (\<lambda>rowIdx.
                      wrappedRow E numeric ws (vrows ! rowIdx)
                      @ (if int rowIdx < int (length vrows) - 1 then [separatorText E ws] else []))
                   [0..<length vrows]))"
proof -
  have "\<And>rowIdx. (if int rowIdx < int (length vrows) - 1
                   then [dimmed E (border BOX_headerLeft BOX_headerCross BOX_headerRight ws)] else [])
        = map Inr (if int rowIdx < int (length vrows) - 1 then [separatorText E ws] else [])"
    using assms by (simp add: separator_drawable)
  then show ?thesis
    unfolding fullContentRows_def by (simp only: concat_map_Inr)
qed

lemma drawTable_drawable:
  assumes d: "list_all drawable (lWidths L)"
  shows "drawTable E opts L =
         map Inr ([topText E (title opts) (lWidths L),
                   cellsLine E (lIsNumeric L) (lWidths L) (lColumns L),
                   separatorText E (lWidths L)] @ bodyLines E opts L)
         @ trailer E (lInfoText L) (lInnerWidth L) (lTotalInnerWidth L) (lWidths L)"
  using d
  by (simp add: drawTable_def topLine_drawable separator_drawable bodyLines_def
        fullContentRows_drawable comp_def)

lemma trailer_info:
  "info \<noteq> [] \<Longrightarrow>
   run (trailer E info innerWidth totalInnerWidth ws) =
     ((dim E @ [BOX_vertical, SPACE] @ padRight E (truncate E info innerWidth) innerWidth
        @ [SPACE, BOX_vertical] @ reset E)
      # (case repeat [BOX_horizontal] totalInnerWidth of
           Inl e \<Rightarrow> [] | Inr rule \<Rightarrow> [dim E @ [BOX_bottomLeft] @ rule @ [BOX_bottomRight] @ reset E]),
      (case repeat [BOX_horizontal] totalInnerWidth of Inl e \<Rightarrow> Some e | Inr rule \<Rightarrow> None))"
  by (simp add: trailer_def split: sum.splits)

lemma trailer_none:
  "list_all drawable ws \<Longrightarrow>
   run (trailer E [] innerWidth totalInnerWidth ws) =
     ([dim E @ borderText BOX_bottomLeft BOX_bottomCross BOX_bottomRight ws @ reset E], None)"
  by (simp add: trailer_def dimmed_def border_drawable)

lemma layout_drawable: "list_all drawable (lWidths (tableLayout E opts rowCount displayRows allColumns))"
proof -
  let ?frs = "map (formatRow E allColumns) displayRows"
  let ?v = "visibleCount (getTerminalWidth E) (length allColumns)"
  have fl: "\<forall>f \<in> set ?frs. length f = length allColumns" by (auto simp: formatRow_length)
  have nn: "\<forall>x \<in> set (take ?v (naturalWidths E allColumns ?frs)). 0 \<le> x"
    using naturalWidths_nonneg [OF fl] by (auto dest: in_set_takeD)
  have len: "length (take ?v allColumns) = length (take ?v (naturalWidths E allColumns ?frs))"
    using naturalWidths_spec(1) [OF fl] by simp
  show ?thesis
    unfolding tableLayout_fields(5)
    by (intro expandLast_drawable compress_drawable nn len)
qed

lemma printTable_drawn:
  assumes "rows \<noteq> []" and "displayRowsOf opts rows = first # others"
  shows "printTable E rows opts =
         run (drawTable E opts (tableLayout E opts (length rows) (first # others) (map fst first)))"
  using assms by (simp add: printTable_def Let_def)

lemma infoText_rows:
  "0 < t \<Longrightarrow> infoText t h =
     js ''... '' @ showInt t @ js '' more row'' @ (if t > 1 then js ''s'' else []) @ columnsNote h"
  by (simp add: infoText_def columnsNote_def Let_def)

lemma infoText_nonempty: "0 < t \<Longrightarrow> infoText t h \<noteq> []"
  by (simp add: infoText_rows js_simps)

lemma printed_lines:
  assumes "rows \<noteq> []" and d: "displayRowsOf opts rows = first # others"
    and L: "L = tableLayout E opts (length rows) (first # others) (map fst first)"
  shows "fst (printTable E rows opts) =
         [topText E (title opts) (lWidths L), cellsLine E (lIsNumeric L) (lWidths L) (lColumns L),
          separatorText E (lWidths L)] @ bodyLines E opts L
         @ fst (run (trailer E (lInfoText L) (lInnerWidth L) (lTotalInnerWidth L) (lWidths L)))"
proof -
  have dr: "list_all drawable (lWidths L)" unfolding L by (rule layout_drawable)
  show ?thesis
    unfolding printTable_drawn [OF assms(1) d] L [symmetric] drawTable_drawable [OF dr] run_Inr
    by simp
qed

lemma take_100:
  assumes "100 < length rows"
  shows "rows \<noteq> []" and "take 100 rows = hd rows # tl (take 100 rows)" and "length (take 100 rows) = 100"
proof -
  show "rows \<noteq> []" using assms by auto
  then show "take 100 rows = hd rows # tl (take 100 rows)" by (cases rows) simp_all
  show "length (take 100 rows) = 100" using assms by simp
qed

lemma visibleCount_six: "2 \<le> visibleCount t n \<Longrightarrow> 6 * int (visibleCount t n) + 1 \<le> t"
proof -
  assume v: "2 \<le> visibleCount t n"
  let ?m = "nat ((t - 1) div 6)"
  from v have "visibleCount t n \<le> ?m" by (auto simp: visibleCount_def min_def max_def split: if_splits)
  with v have "int (visibleCount t n) \<le> (t - 1) div 6" by linarith
  moreover have "6 * ((t - 1) div 6) + (t - 1) mod 6 = t - 1" by (rule mult_div_mod_eq)
  moreover have "0 \<le> (t - 1) mod 6" by simp
  ultimately show ?thesis by linarith
qed

lemma available_nonneg:
  assumes "4 \<le> t"
  shows "0 \<le> t - (4 + (int (visibleCount t n) - 1) * 3)"
proof (cases "2 \<le> visibleCount t n")
  case True
  from visibleCount_six [OF True] show ?thesis by simp
next
  case False
  then have "int (visibleCount t n) \<le> 1" by simp
  with assms show ?thesis by simp
qed

lemma available_room:
  assumes "7 \<le> t"
  shows "3 * int (visibleCount t n) \<le> t - (4 + (int (visibleCount t n) - 1) * 3)"
proof (cases "2 \<le> visibleCount t n")
  case True
  from visibleCount_six [OF True] show ?thesis by simp
next
  case False
  then have "int (visibleCount t n) \<le> 1" by simp
  with assms show ?thesis by simp
qed

lemma all_zero_sum: "list_all (\<lambda>w. w = 0) vs \<Longrightarrow> sum_list vs = (0::int)"
  by (induction vs) simp_all

lemma compress_numbers:
  assumes nn: "\<forall>v \<in> set vs. 0 \<le> v" and len: "length columns = length vs" and room: "0 \<le> available"
  shows "\<exists>ks. compressWidths E available columns vs = map Num ks \<and> length ks = length vs \<and>
           (\<forall>k \<in> set ks. 0 \<le> k) \<and>
           (sum_list vs \<le> available \<longrightarrow> ks = vs) \<and>
           (available < sum_list vs \<longrightarrow>
              (\<forall>k \<in> set ks. minColWidth \<le> k) \<and>
              (sum_list ks \<le> available \<or> (\<forall>k \<in> set ks. k = minColWidth)))"
proof (cases "available < sum_list vs")
  case False
  then have "compressWidths E available columns vs = map Num vs" by (simp add: compress_keep)
  with False nn show ?thesis by auto
next
  case over: True
  have "\<not> list_all (\<lambda>w. w = 0) vs"
  proof
    assume "list_all (\<lambda>w. w = 0) vs"
    then have "sum_list vs = 0" by (rule all_zero_sum)
    with over room show False by simp
  qed
  from compress_spec [OF over this len, of E] obtain ks where ks:
    "compressWidths E available columns vs = map Num ks" "length ks = length vs"
    "\<forall>k \<in> set ks. minColWidth \<le> k"
    "sum_list ks \<le> available \<or> (\<forall>k \<in> set ks. k = minColWidth)" by blast
  then have "\<forall>k \<in> set ks. 0 \<le> k" by (auto simp: minColWidth_def)
  with ks over show ?thesis by auto
qed

lemma expandLast_numbers:
  "expandLast (map Num ks) (Num a) (Num b) =
     map Num (if b < a \<and> ks \<noteq> [] then ks [length ks - 1 := ks ! (length ks - 1) + (a - b)] else ks)"
  by (simp add: expandLast_def gt_num_def map_update)

lemma expand_nonneg:
  assumes "\<forall>k \<in> set ks. (0::int) \<le> k" and "0 \<le> d"
  shows "\<forall>k \<in> set (ks [i := ks ! i + d]). 0 \<le> k"
proof (cases "i < length ks")
  case False
  then have "ks [i := ks ! i + d] = ks" by (simp add: list_update_beyond)
  then show ?thesis using assms by simp
next
  case True
  then have "0 \<le> ks ! i + d" using assms by (simp add: nth_mem)
  then show ?thesis using assms set_update_subset_insert [of ks i] by auto
qed

lemma layout_numbers:
  assumes t4: "4 \<le> getTerminalWidth E"
  shows "\<exists>ks. lWidths (tableLayout E opts rowCount displayRows allColumns) = map Num ks \<and>
              (\<forall>k \<in> set ks. 0 \<le> k)"
proof -
  define t where "t = getTerminalWidth E"
  define frs where "frs = map (formatRow E allColumns) displayRows"
  define v where "v = visibleCount t (length allColumns)"
  define av where "av = t - (4 + (int v - 1) * 3)"
  define vs where "vs = take v (naturalWidths E allColumns frs)"
  have fl: "\<forall>f \<in> set frs. length f = length allColumns" by (auto simp: frs_def formatRow_length)
  have nn: "\<forall>x \<in> set vs. 0 \<le> x"
    using naturalWidths_nonneg [OF fl] by (auto simp: vs_def dest: in_set_takeD)
  have len: "length (take v allColumns) = length vs"
    using naturalWidths_spec(1) [OF fl] by (simp add: vs_def)
  have room: "0 \<le> av" unfolding av_def v_def using t4 by (intro available_nonneg) (simp add: t_def)
  from compress_numbers [OF nn len room, of E] obtain ks where
    ks: "compressWidths E av (take v allColumns) vs = map Num ks" "\<forall>k \<in> set ks. 0 \<le> k" by blast
  define c where "c = sum_list ks + (int v - 1) * 3"
  define tw where "tw = (if hasTitle (title opts) then int (stringWidth E (the (title opts))) + 4 else 0)"
  define inner where "inner = min (max c tw) (t - 4)"
  define ks' where "ks' = (if c < inner \<and> ks \<noteq> [] then ks [length ks - 1 := ks ! (length ks - 1) + (inner - c)] else ks)"
  have "lWidths (tableLayout E opts rowCount displayRows allColumns)
        = expandLast (map Num ks) (Num inner) (Num c)"
    unfolding tableLayout_fields(5)
    using ks(1) by (simp add: sum_num_Num t_def v_def av_def vs_def frs_def c_def tw_def inner_def)
  then have w: "lWidths (tableLayout E opts rowCount displayRows allColumns) = map Num ks'"
    by (simp only: expandLast_numbers ks'_def)
  have "\<forall>k \<in> set ks'. 0 \<le> k"
  proof (cases "c < inner \<and> ks \<noteq> []")
    case False
    then show ?thesis using ks(2) by (simp add: ks'_def)
  next
    case True
    then have "0 \<le> inner - c" by simp
    from expand_nonneg [OF ks(2) this, of "length ks - 1"] True show ?thesis by (simp add: ks'_def)
  qed
  with w show ?thesis by blast
qed

lemma update_ge:
  assumes "i < length ks" and "0 \<le> (d::int)"
  shows "ks ! i \<le> (ks [j := ks ! j + d]) ! i"
  using assms by (cases "i = j") simp_all

lemma layout_width_count:
  "length (lWidths (tableLayout E opts rowCount displayRows allColumns)) =
   visibleCount (getTerminalWidth E) (length allColumns)"
proof -
  let ?frs = "map (formatRow E allColumns) displayRows"
  let ?v = "visibleCount (getTerminalWidth E) (length allColumns)"
  have fl: "\<forall>f \<in> set ?frs. length f = length allColumns" by (auto simp: formatRow_length)
  have vn: "?v \<le> length allColumns" by (rule visibleCount_le)
  have len: "length (take ?v allColumns) = length (take ?v (naturalWidths E allColumns ?frs))"
    using naturalWidths_spec(1) [OF fl] by simp
  show ?thesis
    unfolding tableLayout_fields(5) expandLast_length compress_length [OF len]
    using naturalWidths_spec(1) [OF fl, of E] vn by simp
qed

lemma layout_width_floor:
  fixes E opts rowCount displayRows allColumns
  defines "L \<equiv> tableLayout E opts rowCount displayRows allColumns"
  defines "natural \<equiv> naturalWidths E allColumns (map (formatRow E allColumns) displayRows)"
  assumes i: "i < length (lWidths L)" and pos: "0 < natural ! i"
  shows "\<exists>k. lWidths L ! i = Num k \<and> min 3 (natural ! i) \<le> k"
proof -
  define t where "t = getTerminalWidth E"
  define frs where "frs = map (formatRow E allColumns) displayRows"
  define v where "v = visibleCount t (length allColumns)"
  define av where "av = t - (4 + (int v - 1) * 3)"
  define vs where "vs = take v natural"
  have vn: "v \<le> length allColumns" unfolding v_def by (rule visibleCount_le)
  have fl: "\<forall>f \<in> set frs. length f = length allColumns" by (auto simp: frs_def formatRow_length)
  have nl: "length natural = length allColumns"
    unfolding natural_def frs_def [symmetric] by (rule naturalWidths_spec(1) [OF fl])
  have lvs: "length vs = v" using nl vn by (simp add: vs_def)
  have len: "length (take v allColumns) = length vs" using lvs vn by simp
  have lw: "length (lWidths L) = v"
    unfolding L_def tableLayout_fields(5) expandLast_length
    using compress_length [OF len, of E av] lvs
    by (simp add: t_def v_def av_def vs_def natural_def)
  then have iv: "i < v" using i by simp
  then have vi: "vs ! i = natural ! i" by (simp add: vs_def)
  have "\<exists>ks0. compressWidths E av (take v allColumns) vs = map Num ks0 \<and> length ks0 = v \<and>
          min 3 (natural ! i) \<le> ks0 ! i"
  proof (cases "sum_list vs \<le> av")
    case True
    then have "compressWidths E av (take v allColumns) vs = map Num vs" by (simp add: compress_keep)
    moreover have "min 3 (natural ! i) \<le> vs ! i" using vi by simp
    ultimately show ?thesis using lvs by blast
  next
    case False
    then have over: "av < sum_list vs" by simp
    have "vs ! i \<in> set vs" using iv lvs by simp
    moreover have "vs ! i \<noteq> 0" using pos vi by simp
    ultimately have nz: "\<not> list_all (\<lambda>w. w = 0) vs" by (auto simp: list_all_iff)
    from compress_spec [OF over nz len, of E] obtain ks0 where
      c: "compressWidths E av (take v allColumns) vs = map Num ks0" and l: "length ks0 = length vs"
      and f: "\<forall>k \<in> set ks0. minColWidth \<le> k" by blast
    from l lvs iv have "ks0 ! i \<in> set ks0" by simp
    with f have "3 \<le> ks0 ! i" by (simp add: minColWidth_def)
    then show ?thesis using c l lvs by auto
  qed
  then obtain ks0 where c0: "compressWidths E av (take v allColumns) vs = map Num ks0"
    and l0: "length ks0 = v" and f0: "min 3 (natural ! i) \<le> ks0 ! i" by blast
  define c where "c = sum_list ks0 + (int v - 1) * 3"
  define tw where "tw = (if hasTitle (title opts) then int (stringWidth E (the (title opts))) + 4 else 0)"
  define inner where "inner = min (max c tw) (t - 4)"
  define ks where "ks = (if c < inner \<and> ks0 \<noteq> [] then ks0 [length ks0 - 1 := ks0 ! (length ks0 - 1) + (inner - c)] else ks0)"
  have "lWidths L = expandLast (map Num ks0) (Num inner) (Num c)"
    unfolding L_def tableLayout_fields(5)
    using c0 by (simp add: sum_num_Num t_def v_def av_def vs_def frs_def natural_def c_def tw_def inner_def)
  then have w: "lWidths L = map Num ks" by (simp only: expandLast_numbers ks_def)
  have lk: "length ks = v" using l0 by (simp add: ks_def)
  have "ks0 ! i \<le> ks ! i"
  proof (cases "c < inner \<and> ks0 \<noteq> []")
    case False
    then show ?thesis by (simp add: ks_def)
  next
    case True
    then have "0 \<le> inner - c" by simp
    from update_ge [OF _ this, of i ks0 "length ks0 - 1"] iv l0 True show ?thesis by (simp add: ks_def)
  qed
  with f0 have "min 3 (natural ! i) \<le> ks ! i" by simp
  moreover have "lWidths L ! i = Num (ks ! i)" using w lk iv by simp
  ultimately show ?thesis by blast
qed

text \<open>
  C4, as the code has it. No visible column has a negative width: \<open>w < 0\<close> is false for
  every final width, and on a terminal of at least 4 columns every final width is a number
  that is at least 0. A visible column whose name or one of whose displayed cells has a
  positive display width ends with a width that is a number, at least 1 and at least the
  smaller of 3 and its natural width. (The floor of 3 is applied by the compression only;
  without it a column keeps its natural width, which is 0 when its name and cells have no
  width.)
\<close>

theorem column_widths_floor:
  "list_all (\<lambda>w. \<not> lt_num w (Num 0)) (lWidths (tableLayout E opts rowCount displayRows allColumns)) \<and>
   (4 \<le> getTerminalWidth E \<longrightarrow>
      list_all (\<lambda>w. le_num (Num 0) w) (lWidths (tableLayout E opts rowCount displayRows allColumns))) \<and>
   (\<forall>i < length (lWidths (tableLayout E opts rowCount displayRows allColumns)).
      0 < stringWidth E (allColumns ! i) \<or>
      list_ex (\<lambda>r. 0 < stringWidth E (formatRow E allColumns r ! i)) displayRows \<longrightarrow>
      (\<exists>k. lWidths (tableLayout E opts rowCount displayRows allColumns) ! i = Num k \<and> 1 \<le> k \<and>
           min 3 (naturalWidths E allColumns (map (formatRow E allColumns) displayRows) ! i) \<le> k))"
proof (intro conjI impI allI)
  show "list_all (\<lambda>w. \<not> lt_num w (Num 0)) (lWidths (tableLayout E opts rowCount displayRows allColumns))"
    using layout_drawable [of E opts rowCount displayRows allColumns]
    by (simp add: drawable_def [abs_def])
next
  assume "4 \<le> getTerminalWidth E"
  from layout_numbers [OF this, of opts rowCount displayRows allColumns]
  show "list_all (\<lambda>w. le_num (Num 0) w) (lWidths (tableLayout E opts rowCount displayRows allColumns))"
    by (auto simp: list_all_iff)
next
  fix i
  let ?L = "tableLayout E opts rowCount displayRows allColumns"
  let ?frs = "map (formatRow E allColumns) displayRows"
  let ?natural = "naturalWidths E allColumns ?frs"
  assume i: "i < length (lWidths ?L)"
    and c: "0 < stringWidth E (allColumns ! i) \<or>
            list_ex (\<lambda>r. 0 < stringWidth E (formatRow E allColumns r ! i)) displayRows"
  have fl: "\<forall>f \<in> set ?frs. length f = length allColumns" by (auto simp: formatRow_length)
  have "length (lWidths ?L) \<le> length allColumns"
    using layout_width_count [of E opts rowCount displayRows allColumns] visibleCount_le by simp
  with i have il: "i < length allColumns" by simp
  from c have pos: "0 < ?natural ! i"
  proof
    assume "0 < stringWidth E (allColumns ! i)"
    with naturalWidths_spec(2) [OF fl il, of E] show ?thesis by simp
  next
    assume "list_ex (\<lambda>r. 0 < stringWidth E (formatRow E allColumns r ! i)) displayRows"
    then obtain r where r: "r \<in> set displayRows" "0 < stringWidth E (formatRow E allColumns r ! i)"
      by (auto simp: list_ex_iff)
    then have "formatRow E allColumns r \<in> set ?frs" by simp
    from naturalWidths_spec(3) [OF fl il this, of E] r(2) show ?thesis by simp
  qed
  from layout_width_floor [OF i pos] obtain k where
    k: "lWidths ?L ! i = Num k" "min 3 (?natural ! i) \<le> k" by blast
  with pos have "1 \<le> k" by simp
  with k show "\<exists>k. lWidths ?L ! i = Num k \<and> 1 \<le> k \<and> min 3 (?natural ! i) \<le> k" by blast
qed

theorem column_widths_floor_witness:
  "4 \<le> getTerminalWidth (plainRuntime 10) \<and>
   lWidths (tableLayout (plainRuntime 10) defaultOptions 1 [[(js ''abcdefghij'', VString (js ''v''))]]
              [js ''abcdefghij'']) = [Num 6] \<and>
   naturalWidths (plainRuntime 10) [js ''abcdefghij'']
     (map (formatRow (plainRuntime 10) [js ''abcdefghij'']) [[(js ''abcdefghij'', VString (js ''v''))]]) = [10] \<and>
   0 < stringWidth (plainRuntime 10) ([js ''abcdefghij''] ! 0) \<and>
   list_all (\<lambda>w. le_num (Num 0) w)
     (lWidths (tableLayout (plainRuntime 10) defaultOptions 1 [[(js ''abcdefghij'', VString (js ''v''))]]
              [js ''abcdefghij''])) \<and>
   (\<exists>k. lWidths (tableLayout (plainRuntime 10) defaultOptions 1 [[(js ''abcdefghij'', VString (js ''v''))]]
              [js ''abcdefghij'']) ! 0 = Num k \<and> 1 \<le> k \<and>
        min 3 (naturalWidths (plainRuntime 10) [js ''abcdefghij'']
                 (map (formatRow (plainRuntime 10) [js ''abcdefghij''])
                    [[(js ''abcdefghij'', VString (js ''v''))]]) ! 0) \<le> k)"
proof -
  let ?E = "plainRuntime 10"
  let ?rows = "[[(js ''abcdefghij'', VString (js ''v''))]]"
  let ?cols = "[js ''abcdefghij'']"
  let ?L = "tableLayout ?E defaultOptions 1 ?rows ?cols"
  have t: "4 \<le> getTerminalWidth ?E" by (simp add: eval_all)
  have v: "lWidths ?L = [Num 6]" by (simp add: eval_all)
  have n: "naturalWidths ?E ?cols (map (formatRow ?E ?cols) ?rows) = [10]" by (simp add: eval_all)
  have p: "0 < stringWidth ?E (?cols ! 0)" by (simp add: eval_all)
  have i: "0 < length (lWidths ?L)" unfolding v by simp
  note th = column_widths_floor [of ?E defaultOptions 1 ?rows ?cols]
  from th t have a: "list_all (\<lambda>w. le_num (Num 0) w) (lWidths ?L)" by blast
  from th i p have b: "\<exists>k. lWidths ?L ! 0 = Num k \<and> 1 \<le> k \<and>
        min 3 (naturalWidths ?E ?cols (map (formatRow ?E ?cols) ?rows) ! 0) \<le> k" by blast
  from t v n p a b show ?thesis by blast
qed

text \<open>
  C4 as stated fails for the row \<open>{"": ""}\<close>: its only column has the natural width 0,
  the compression does not run, and the borders are drawn with a column of width 0.
\<close>

theorem zero_width_column_counterexample:
  "lWidths (tableLayout (plainRuntime 120) defaultOptions 1 [[([], VString [])]] [[]]) = [Num 0] \<and>
   printTable (plainRuntime 120) [[([], VString [])]] defaultOptions =
     ([[BOX_topLeft, BOX_horizontal, BOX_horizontal, BOX_topRight],
       [BOX_vertical, SPACE, SPACE, BOX_vertical],
       [BOX_headerLeft, BOX_horizontal, BOX_horizontal, BOX_headerRight],
       [BOX_vertical, SPACE, SPACE, BOX_vertical],
       [BOX_bottomLeft, BOX_horizontal, BOX_horizontal, BOX_bottomRight]], None)"
  by (simp add: eval_all)

text \<open>
  A row that lacks a column of the first row shows what it inherits: for the column
  \<open>toString\<close> of a plain object the function of the prototype, and \<open>NULL\<close> for a name
  that the prototype does not have.
\<close>

lemma inherited_cell:
  "fst (printTable (plainRuntime 120)
          [[(js ''toString'', VString (js ''x'')), (js ''a'', VString (js ''y''))], []] defaultOptions) ! 4
   = [BOX_vertical] @ js '' [Function: toString] '' @ [BOX_vertical] @ js '' NULL '' @ [BOX_vertical]"
  by (simp add: eval_all)

section \<open>Row capping and the trailer\<close>

lemma js_append: "js (a @ b) = js a @ js b"
  by (simp add: js_def)

lemma more_rows: "js '' more row'' @ js ''s'' @ rest = js '' more rows'' @ rest"
  by (simp add: js_simps)

lemma showInt_7: "showInt 7 = js ''7''"
  by (simp add: showInt_def showNat.simps js_simps)

lemma showInt_997: "showInt 997 = js ''997''"
  by (simp add: showInt_def showNat.simps js_simps)

lemma layout_info_count:
  "lInfoText (tableLayout E opts rowCount displayRows allColumns) =
     infoText (max 0 ((case totalRows opts of None \<Rightarrow> int rowCount | Some t \<Rightarrow> t)
                      - int (length displayRows)))
       (lHiddenCols (tableLayout E opts rowCount displayRows allColumns))"
  by (simp add: tableLayout_fields(8) tableLayout_fields(2) max_def)

lemma ten_rows_trailer:
  assumes h: "length rows = 10 \<and> maxRows opts = Some (Rows 3) \<and>
             (totalRows opts = None \<or> totalRows opts = Some 1000)"
  shows "\<exists>L. L = tableLayout E opts (length rows) (take 3 rows) (map fst (hd rows)) \<and>
        lInfoText L =
          js ''... '' @ (if totalRows opts = None then js ''7'' else js ''997'') @ js '' more rows''
          @ columnsNote (lHiddenCols L) \<and>
        infoLine E L \<in> set (fst (printTable E rows opts))"
proof -
  let ?L = "tableLayout E opts (length rows) (take 3 rows) (map fst (hd rows))"
  from h have ne: "rows \<noteq> []" by auto
  then have t: "take 3 rows = hd rows # tl (take 3 rows)" by (cases rows) simp_all
  have l3: "length (take 3 rows) = 3" using h by simp
  have d: "displayRowsOf opts rows = hd rows # tl (take 3 rows)"
    using h t by (simp add: displayRowsOf_def sliceTo_def)
  have L: "?L = tableLayout E opts (length rows) (hd rows # tl (take 3 rows)) (map fst (hd rows))"
    using t by simp
  have info: "lInfoText ?L =
          js ''... '' @ (if totalRows opts = None then js ''7'' else js ''997'') @ js '' more rows''
          @ columnsNote (lHiddenCols ?L)"
  proof (cases "totalRows opts = None")
    case True
    then have "lInfoText ?L = infoText 7 (lHiddenCols ?L)"
      using h l3 by (simp add: tableLayout_fields(8) tableLayout_fields(2))
    then show ?thesis using True by (simp add: infoText_rows showInt_7 more_rows)
  next
    case False
    with h have k: "totalRows opts = Some 1000" by simp
    then have "lInfoText ?L = infoText 997 (lHiddenCols ?L)"
      using l3 by (simp add: tableLayout_fields(8) tableLayout_fields(2))
    then show ?thesis using k by (simp add: infoText_rows showInt_997 more_rows)
  qed
  then have "lInfoText ?L \<noteq> []" by (simp add: js_simps)
  from trailer_info [OF this]
  have "infoLine E ?L \<in> set (fst (printTable E rows opts))"
    unfolding printed_lines [OF ne d L] by (simp add: infoLine_def)
  with info show ?thesis by blast
qed

text \<open>
  C9, as the code has it. The trailer text is built from the count
  \<open>max 0 (actualTotal - drawn)\<close>, where \<open>actualTotal\<close> is \<open>totalRows\<close> or, when
  that is absent, the number of supplied rows. For ten rows and \<open>maxRows = 3\<close> the text
  is \<open>... 7 more rows\<close> when \<open>totalRows\<close> is absent and \<open>... 997 more rows\<close> when it
  is 1000, followed by the note on hidden columns if there are any; the line that is
  logged is this text truncated and padded to the inner width.
\<close>

theorem trailer_row_count:
  "lInfoText (tableLayout E opts rowCount displayRows allColumns) =
     infoText (max 0 ((case totalRows opts of None \<Rightarrow> int rowCount | Some t \<Rightarrow> t)
                      - int (length displayRows)))
       (lHiddenCols (tableLayout E opts rowCount displayRows allColumns)) \<and>
   (length rows = 10 \<and> maxRows opts = Some (Rows 3) \<and>
    (totalRows opts = None \<or> totalRows opts = Some 1000) \<longrightarrow>
    (\<exists>L. L = tableLayout E opts (length rows) (take 3 rows) (map fst (hd rows)) \<and>
        lInfoText L =
          js ''... '' @ (if totalRows opts = None then js ''7'' else js ''997'') @ js '' more rows''
          @ columnsNote (lHiddenCols L) \<and>
        infoLine E L \<in> set (fst (printTable E rows opts))))"
proof (intro conjI impI)
  show "lInfoText (tableLayout E opts rowCount displayRows allColumns) =
     infoText (max 0 ((case totalRows opts of None \<Rightarrow> int rowCount | Some t \<Rightarrow> t)
                      - int (length displayRows)))
       (lHiddenCols (tableLayout E opts rowCount displayRows allColumns))"
    by (rule layout_info_count)
next
  assume "length rows = 10 \<and> maxRows opts = Some (Rows 3) \<and>
    (totalRows opts = None \<or> totalRows opts = Some 1000)"
  then show "\<exists>L. L = tableLayout E opts (length rows) (take 3 rows) (map fst (hd rows)) \<and>
        lInfoText L =
          js ''... '' @ (if totalRows opts = None then js ''7'' else js ''997'') @ js '' more rows''
          @ columnsNote (lHiddenCols L) \<and>
        infoLine E L \<in> set (fst (printTable E rows opts))"
    by (rule ten_rows_trailer)
qed

theorem trailer_row_count_witness:
  "length (idRows [0, 1, 2, 3, 4, 5, 6, 7, 8, 9]) = 10 \<and>
   maxRows (defaultOptions \<lparr> maxRows := Some (Rows 3) \<rparr>) = Some (Rows 3) \<and>
   totalRows (defaultOptions \<lparr> maxRows := Some (Rows 3) \<rparr>) = None \<and>
   lInfoText (tableLayout (plainRuntime 120) (defaultOptions \<lparr> maxRows := Some (Rows 3) \<rparr>)
     (length (idRows [0, 1, 2, 3, 4, 5, 6, 7, 8, 9])) (take 3 (idRows [0, 1, 2, 3, 4, 5, 6, 7, 8, 9]))
     (map fst (hd (idRows [0, 1, 2, 3, 4, 5, 6, 7, 8, 9])))) = js ''... 7 more rows'' \<and>
   infoLine (plainRuntime 120)
     (tableLayout (plainRuntime 120) (defaultOptions \<lparr> maxRows := Some (Rows 3) \<rparr>)
        (length (idRows [0, 1, 2, 3, 4, 5, 6, 7, 8, 9])) (take 3 (idRows [0, 1, 2, 3, 4, 5, 6, 7, 8, 9]))
        (map fst (hd (idRows [0, 1, 2, 3, 4, 5, 6, 7, 8, 9]))))
     \<in> set (fst (printTable (plainRuntime 120) (idRows [0, 1, 2, 3, 4, 5, 6, 7, 8, 9])
                   (defaultOptions \<lparr> maxRows := Some (Rows 3) \<rparr>)))"
proof -
  let ?rows = "idRows [0, 1, 2, 3, 4, 5, 6, 7, 8, 9]"
  let ?opts = "defaultOptions \<lparr> maxRows := Some (Rows 3) \<rparr>"
  let ?L = "tableLayout (plainRuntime 120) ?opts (length ?rows) (take 3 ?rows) (map fst (hd ?rows))"
  have a: "length ?rows = 10" by (simp add: idRows_def)
  have b: "maxRows ?opts = Some (Rows 3)" "totalRows ?opts = None" by (simp_all add: defaultOptions_def)
  have c: "lHiddenCols ?L = 0" by (simp add: eval_all)
  from trailer_row_count [of "plainRuntime 120" ?opts 0 "[]" "[]" ?rows, THEN conjunct2] a b
  have "lInfoText ?L = js ''... '' @ js ''7'' @ js '' more rows'' @ columnsNote (lHiddenCols ?L) \<and>
        infoLine (plainRuntime 120) ?L \<in> set (fst (printTable (plainRuntime 120) ?rows ?opts))"
    by simp
  then have "lInfoText ?L = js ''... 7 more rows'' \<and>
        infoLine (plainRuntime 120) ?L \<in> set (fst (printTable (plainRuntime 120) ?rows ?opts))"
    unfolding c by (simp add: columnsNote_def js_simps)
  with a b show ?thesis by blast
qed

text \<open>
  C9 as stated fails on ten rows with the single column \<open>id\<close>: the inner width is 2, so
  the trailer line shows a dot and the ellipsis, and no line holds \<open>7 more rows\<close>. And with
  \<open>totalRows = 2\<close>, which does not exceed the three rows drawn, the trailer text is empty
  although seven of the supplied rows are not drawn.
\<close>

theorem trailer_cut_counterexample:
  "printTable (plainRuntime 120) (idRows [0, 1, 2, 3, 4, 5, 6, 7, 8, 9])
     (defaultOptions \<lparr> maxRows := Some (Rows 3) \<rparr>) =
   ([[BOX_topLeft, BOX_horizontal, BOX_horizontal, BOX_horizontal, BOX_horizontal, BOX_topRight],
     [BOX_vertical] @ js '' id '' @ [BOX_vertical],
     [BOX_headerLeft, BOX_horizontal, BOX_horizontal, BOX_horizontal, BOX_horizontal, BOX_headerRight],
     [BOX_vertical] @ js ''  0 '' @ [BOX_vertical],
     [BOX_vertical] @ js ''  1 '' @ [BOX_vertical],
     [BOX_vertical] @ js ''  2 '' @ [BOX_vertical],
     [BOX_vertical] @ js '' .'' @ [ELLIPSIS, SPACE, BOX_vertical],
     [BOX_bottomLeft, BOX_horizontal, BOX_horizontal, BOX_horizontal, BOX_horizontal, BOX_bottomRight]],
    None) \<and>
   lInfoText (tableLayout (plainRuntime 120)
      (defaultOptions \<lparr> maxRows := Some (Rows 3), totalRows := Some 2 \<rparr>)
      10 (take 3 (idRows [0, 1, 2, 3, 4, 5, 6, 7, 8, 9])) [js ''id'']) = []"
  by (simp add: eval_all)

lemma layout_rows_formatted:
  "lRows (tableLayout E opts rowCount displayRows allColumns) =
     map (\<lambda>r. map (\<lambda>col. escapeNewlines (formatValue E (getProp E r col)))
                  (lColumns (tableLayout E opts rowCount displayRows allColumns)))
         displayRows"
  by (simp add: tableLayout_fields(1) tableLayout_fields(3) formatRow_def take_map comp_def)

lemma infoLine_fits:
  fixes L :: layout
  shows "le_num (sw E (lInfoText L)) (lInnerWidth L) \<Longrightarrow>
   infoLine E L = dim E @ [BOX_vertical, SPACE] @ padRight E (lInfoText L) (lInnerWidth L)
                  @ [SPACE, BOX_vertical] @ reset E"
  by (simp add: infoLine_def truncate_fits)

text \<open>
  C10, as the code has it. With more than 100 rows and no \<open>maxRows\<close>, no \<open>totalRows\<close>
  and no full-content mode, the lines logged are the top border, the header, the separator,
  exactly 100 data lines, which hold the formatted cells of the first 100 rows, the trailer
  line and at most one more line (the bottom border). The trailer text is
  \<open>... N more rows\<close> for the \<open>N\<close> rows beyond 100 (\<open>row\<close> when \<open>N\<close> is 1),
  followed by the note on hidden columns; the trailer line is this text truncated and
  padded to the inner width, and holds the text in full when the text is not wider than
  the inner width.
\<close>

theorem default_cap_100:
  "100 < length rows \<and> maxRows opts = None \<and> totalRows opts = None \<and> \<not> fullContent opts \<longrightarrow>
   (\<exists>L bottom.
      L = tableLayout E opts (length rows) (take 100 rows) (map fst (hd rows)) \<and>
      length (lRows L) = 100 \<and>
      lRows L = map (\<lambda>r. map (\<lambda>col. escapeNewlines (formatValue E (getProp E r col))) (lColumns L))
                    (take 100 rows) \<and>
      lInfoText L =
        js ''... '' @ showInt (int (length rows) - 100) @ js '' more row''
        @ (if 101 < length rows then js ''s'' else []) @ columnsNote (lHiddenCols L) \<and>
      length bottom \<le> 1 \<and>
      fst (printTable E rows opts) =
        [topText E (title opts) (lWidths L), cellsLine E (lIsNumeric L) (lWidths L) (lColumns L),
         separatorText E (lWidths L)]
        @ map (cellsLine E (lIsNumeric L) (lWidths L)) (lRows L)
        @ [infoLine E L] @ bottom \<and>
      (le_num (sw E (lInfoText L)) (lInnerWidth L) \<longrightarrow>
         infoLine E L = dim E @ [BOX_vertical, SPACE] @ padRight E (lInfoText L) (lInnerWidth L)
                        @ [SPACE, BOX_vertical] @ reset E))"
proof (intro impI)
  assume h: "100 < length rows \<and> maxRows opts = None \<and> totalRows opts = None \<and> \<not> fullContent opts"
  let ?L = "tableLayout E opts (length rows) (take 100 rows) (map fst (hd rows))"
  let ?bottom = "case repeat [BOX_horizontal] (lTotalInnerWidth ?L) of
                   Inl e \<Rightarrow> []
                 | Inr rule \<Rightarrow> [dim E @ [BOX_bottomLeft] @ rule @ [BOX_bottomRight] @ reset E]"
  from h have big: "100 < length rows" by simp
  note t = take_100 [OF big]
  have d: "displayRowsOf opts rows = hd rows # tl (take 100 rows)"
    using h t(2) by (simp add: displayRowsOf_def sliceTo_def)
  have L: "?L = tableLayout E opts (length rows) (hd rows # tl (take 100 rows)) (map fst (hd rows))"
    using t(2) by simp
  have rows100: "length (lRows ?L) = 100"
    using t(3) by (simp add: tableLayout_fields(3))
  have cells: "lRows ?L = map (\<lambda>r. map (\<lambda>col. escapeNewlines (formatValue E (getProp E r col))) (lColumns ?L))
                    (take 100 rows)"
    by (rule layout_rows_formatted)
  have "lInfoText ?L = infoText (int (length rows) - 100) (lHiddenCols ?L)"
    using h t(3) by (simp add: tableLayout_fields(8) tableLayout_fields(2))
  moreover have "0 < int (length rows) - 100" using big by simp
  ultimately have info: "lInfoText ?L =
        js ''... '' @ showInt (int (length rows) - 100) @ js '' more row''
        @ (if 101 < length rows then js ''s'' else []) @ columnsNote (lHiddenCols ?L)"
    by (simp add: infoText_rows)
  then have ne: "lInfoText ?L \<noteq> []" by (simp add: js_simps)
  have b: "length ?bottom \<le> 1" by (simp split: sum.splits)
  have lines: "fst (printTable E rows opts) =
        [topText E (title opts) (lWidths ?L), cellsLine E (lIsNumeric ?L) (lWidths ?L) (lColumns ?L),
         separatorText E (lWidths ?L)]
        @ map (cellsLine E (lIsNumeric ?L) (lWidths ?L)) (lRows ?L)
        @ [infoLine E ?L] @ ?bottom"
    unfolding printed_lines [OF t(1) d L] trailer_info [OF ne]
    using h by (simp add: bodyLines_def infoLine_def)
  have full: "le_num (sw E (lInfoText ?L)) (lInnerWidth ?L) \<longrightarrow>
         infoLine E ?L = dim E @ [BOX_vertical, SPACE] @ padRight E (lInfoText ?L) (lInnerWidth ?L)
                        @ [SPACE, BOX_vertical] @ reset E"
    using infoLine_fits [of E ?L] by blast
  show "\<exists>L bottom.
      L = tableLayout E opts (length rows) (take 100 rows) (map fst (hd rows)) \<and>
      length (lRows L) = 100 \<and>
      lRows L = map (\<lambda>r. map (\<lambda>col. escapeNewlines (formatValue E (getProp E r col))) (lColumns L))
                    (take 100 rows) \<and>
      lInfoText L =
        js ''... '' @ showInt (int (length rows) - 100) @ js '' more row''
        @ (if 101 < length rows then js ''s'' else []) @ columnsNote (lHiddenCols L) \<and>
      length bottom \<le> 1 \<and>
      fst (printTable E rows opts) =
        [topText E (title opts) (lWidths L), cellsLine E (lIsNumeric L) (lWidths L) (lColumns L),
         separatorText E (lWidths L)]
        @ map (cellsLine E (lIsNumeric L) (lWidths L)) (lRows L)
        @ [infoLine E L] @ bottom \<and>
      (le_num (sw E (lInfoText L)) (lInnerWidth L) \<longrightarrow>
         infoLine E L = dim E @ [BOX_vertical, SPACE] @ padRight E (lInfoText L) (lInnerWidth L)
                        @ [SPACE, BOX_vertical] @ reset E)"
    apply (rule exI [of _ ?L])
    apply (rule exI [of _ ?bottom])
    apply (intro conjI)
          apply (rule refl)
         apply (rule rows100)
        apply (rule cells)
       apply (rule info)
      apply (rule b)
     apply (rule lines)
    apply (rule full)
    done
qed

theorem default_cap_100_witness:
  "100 < length (replicate 101 [(js ''identifier_of_row'', VNumber 1)]) \<and>
   maxRows defaultOptions = None \<and> totalRows defaultOptions = None \<and> \<not> fullContent defaultOptions \<and>
   lInfoText (tableLayout (plainRuntime 120) defaultOptions
                (length (replicate 101 [(js ''identifier_of_row'', VNumber 1)]))
                (take 100 (replicate 101 [(js ''identifier_of_row'', VNumber 1)]))
                (map fst (hd (replicate 101 [(js ''identifier_of_row'', VNumber 1)]))))
     = js ''... 1 more row'' \<and>
   infoLine (plainRuntime 120)
     (tableLayout (plainRuntime 120) defaultOptions
        (length (replicate 101 [(js ''identifier_of_row'', VNumber 1)]))
        (take 100 (replicate 101 [(js ''identifier_of_row'', VNumber 1)]))
        (map fst (hd (replicate 101 [(js ''identifier_of_row'', VNumber 1)]))))
     = [BOX_vertical] @ js '' ... 1 more row    '' @ [BOX_vertical] \<and>
   length (fst (printTable (plainRuntime 120) (replicate 101 [(js ''identifier_of_row'', VNumber 1)])
                  defaultOptions)) = 105 \<and>
   fst (printTable (plainRuntime 120) (replicate 101 [(js ''identifier_of_row'', VNumber 1)])
          defaultOptions) ! 103
     = [BOX_vertical] @ js '' ... 1 more row    '' @ [BOX_vertical]"
proof -
  let ?E = "plainRuntime 120"
  let ?rows = "replicate 101 [(js ''identifier_of_row'', VNumber 1)]"
  let ?L = "tableLayout ?E defaultOptions (length ?rows) (take 100 ?rows) (map fst (hd ?rows))"
  have a: "100 < length ?rows" by simp
  have b: "maxRows defaultOptions = None" "totalRows defaultOptions = None" "\<not> fullContent defaultOptions"
    by (simp_all add: defaultOptions_def)
  have hid: "lHiddenCols ?L = 0" by (simp add: eval_all)
  have inner: "lInnerWidth ?L = Num 17" by (simp add: eval_all)
  have tot: "lTotalInnerWidth ?L = Num 19" by (simp add: eval_all)
  from default_cap_100 [of ?rows defaultOptions ?E] a b
  obtain bottom where
        r: "length (lRows ?L) = 100"
    and i: "lInfoText ?L = js ''... '' @ showInt (int (length ?rows) - 100) @ js '' more row''
              @ (if 101 < length ?rows then js ''s'' else []) @ columnsNote (lHiddenCols ?L)"
    and bl: "length bottom \<le> 1"
    and p: "fst (printTable ?E ?rows defaultOptions) =
        [topText ?E (title defaultOptions) (lWidths ?L), cellsLine ?E (lIsNumeric ?L) (lWidths ?L) (lColumns ?L),
         separatorText ?E (lWidths ?L)]
        @ map (cellsLine ?E (lIsNumeric ?L) (lWidths ?L)) (lRows ?L)
        @ [infoLine ?E ?L] @ bottom"
    and f: "le_num (sw ?E (lInfoText ?L)) (lInnerWidth ?L) \<longrightarrow>
         infoLine ?E ?L = dim ?E @ [BOX_vertical, SPACE] @ padRight ?E (lInfoText ?L) (lInnerWidth ?L)
                        @ [SPACE, BOX_vertical] @ reset ?E"
    by blast
  have i': "lInfoText ?L = js ''... 1 more row''"
    unfolding i hid by (simp add: columnsNote_def showInt_def showNat.simps js_simps)
  have fit: "le_num (sw ?E (lInfoText ?L)) (lInnerWidth ?L)"
    unfolding i' inner by (simp add: string_eval)
  from f fit have "infoLine ?E ?L = dim ?E @ [BOX_vertical, SPACE] @ padRight ?E (lInfoText ?L) (lInnerWidth ?L)
                        @ [SPACE, BOX_vertical] @ reset ?E" by blast
  then have il: "infoLine ?E ?L = [BOX_vertical] @ js '' ... 1 more row    '' @ [BOX_vertical]"
    unfolding i' inner by (simp add: eval_all)
  have n: "fst (printTable ?E ?rows defaultOptions) ! 103 = infoLine ?E ?L"
    unfolding p using r by (simp add: nth_append)
  have len: "length (fst (printTable ?E ?rows defaultOptions)) = 105" by (simp add: eval_all)
  from a b i' il len n show ?thesis by simp
qed

text \<open>
  C10 as stated fails on 101 rows with the single column \<open>id\<close>: 100 data lines are
  drawn, but the inner width is 2 and the trailer line shows a dot and the ellipsis; no line
  reports the row that is left.
\<close>

theorem default_trailer_cut_counterexample:
  "length (fst (printTable (plainRuntime 120) (replicate 101 [(js ''id'', VNumber 1)]) defaultOptions)) = 105 \<and>
   lInfoText (tableLayout (plainRuntime 120) defaultOptions 101
                (take 100 (replicate 101 [(js ''id'', VNumber 1)])) [js ''id'']) = js ''... 1 more row'' \<and>
   fst (printTable (plainRuntime 120) (replicate 101 [(js ''id'', VNumber 1)]) defaultOptions) ! 103
     = [BOX_vertical] @ js '' .'' @ [ELLIPSIS, SPACE, BOX_vertical] \<and>
   fst (printTable (plainRuntime 120) (replicate 101 [(js ''id'', VNumber 1)]) defaultOptions) ! 104
     = [BOX_bottomLeft, BOX_horizontal, BOX_horizontal, BOX_horizontal, BOX_horizontal, BOX_bottomRight]"
  by (simp add: eval_all)

text \<open>
  C2 fails on the code. With \<open>maxRows = 0\<close> no row is displayed, and
  \<open>Object.keys(displayRows[0])\<close> throws a TypeError before anything is logged. On a
  terminal one column wide a table with a trailer throws a RangeError from
  \<open>repeat(totalInnerWidth)\<close>, after the trailer line.
\<close>

theorem printTable_throws:
  "printTable (plainRuntime 120) (idRows [1]) (defaultOptions \<lparr> maxRows := Some (Rows 0) \<rparr>)
     = ([], Some TypeError) \<and>
   snd (printTable (plainRuntime 1) (idRows [1, 2]) (defaultOptions \<lparr> maxRows := Some (Rows 1) \<rparr>))
     = Some RangeError"
  by (simp add: eval_all)

section \<open>The width of the drawn lines\<close>

text \<open>Styled texts: what they are made of, and what they are closed under.\<close>

lemma styledFrom_append:
  "styledFrom S st a \<Longrightarrow> styled S b \<Longrightarrow> styledFrom S st (a @ b)"
  by (induction a arbitrary: st) (auto simp: styled_def split: scan.splits if_splits)

lemma styled_append: "styled S a \<Longrightarrow> styled S b \<Longrightarrow> styled S (a @ b)"
  using styledFrom_append [of S Normal a b] by (simp add: styled_def)

lemma styled_Nil: "styled S []"
  by (simp add: styled_def)

lemma styled_plain: "set s \<subseteq> S \<Longrightarrow> 27 \<notin> S \<Longrightarrow> styled S s"
  unfolding styled_def by (induction s) auto

lemma styled_codes: "styled S DIM" "styled S RESET" "styled S BOLD"
  by (simp_all add: styled_def DIM_def RESET_def BOLD_def js_simps)

lemma styled_style: "styled S (dim E)" "styled S (reset E)" "styled S (bold E)"
  by (simp_all add: dim_def reset_def bold_def styled_codes styled_Nil)

lemma styledFrom_units:
  "styledFrom S st s \<Longrightarrow> c \<in> set s \<Longrightarrow> c \<in> S \<or> c = 27 \<or> c = 91 \<or> c = 109 \<or> (48 \<le> c \<and> c \<le> 59)"
  by (induction s arbitrary: st) (auto split: scan.splits if_splits)

lemma styled_nl: "styled S s \<Longrightarrow> NEWLINE \<notin> S \<Longrightarrow> NEWLINE \<notin> set s"
  using styledFrom_units [of S Normal s NEWLINE] by (auto simp: styled_def NEWLINE_def)

lemma styled_concat: "\<forall>p \<in> set ps. styled S p \<Longrightarrow> styled S (concat ps)"
  by (induction ps) (simp_all add: styled_Nil styled_append)

text \<open>What the assumption gives.\<close>

lemma lm_S:
  assumes "lineModel E S"
  shows "27 \<notin> S" "NEWLINE \<notin> S" "SPACE \<in> S" "ELLIPSIS \<in> S" "set boxGlyphs \<subseteq> S"
  using assms by (auto simp: lineModel_def SPACE_def list_all_iff)

lemma lm_ascii: "lineModel E S \<Longrightarrow> 32 \<le> c \<Longrightarrow> c \<le> 126 \<Longrightarrow> c \<in> S \<and> stringWidth E [c] = 1"
  by (simp add: lineModel_def)

lemma lm_append:
  "lineModel E S \<Longrightarrow> styled S a \<Longrightarrow> styled S b \<Longrightarrow>
   stringWidth E (a @ b) = stringWidth E a + stringWidth E b"
  by (simp add: lineModel_def)

lemma lm_Nil: "lineModel E S \<Longrightarrow> stringWidth E [] = 0"
  using lm_append [of E S "[]" "[]"] by (simp add: styled_Nil)

lemma wide_append:
  "lineModel E S \<Longrightarrow> wide E S a n \<Longrightarrow> wide E S b k \<Longrightarrow> wide E S (a @ b) (n + k)"
  by (auto simp: wide_def styled_append lm_append)

lemma wide_Nil: "lineModel E S \<Longrightarrow> wide E S [] 0"
  by (simp add: wide_def styled_Nil lm_Nil)

lemma wide_style:
  assumes "lineModel E S"
  shows "wide E S (dim E) 0" "wide E S (reset E) 0" "wide E S (bold E) 0"
  using assms by (simp_all add: wide_def styled_style lineModel_def)

lemma wide_unit:
  assumes m: "lineModel E S"
  shows "wide E S [SPACE] 1" "wide E S [ELLIPSIS] 1" "g \<in> set boxGlyphs \<Longrightarrow> wide E S [g] 1"
proof -
  note s = lm_S [OF m]
  show "wide E S [SPACE] 1" using lm_ascii [OF m, of SPACE] s by (simp add: wide_def styled_plain SPACE_def)
  show "wide E S [ELLIPSIS] 1" using m s by (simp add: wide_def styled_plain lineModel_def)
  show "g \<in> set boxGlyphs \<Longrightarrow> wide E S [g] 1"
    using m s by (auto simp: wide_def styled_plain lineModel_def list_all_iff)
qed

lemma wide_glyphs:
  assumes m: "lineModel E S"
  shows "set gs \<subseteq> set boxGlyphs \<Longrightarrow> wide E S gs (int (length gs))"
proof (induction gs)
  case Nil
  then show ?case by (simp add: wide_Nil [OF m])
next
  case (Cons g gs)
  then have "wide E S ([g] @ gs) (1 + int (length gs))"
    by (intro wide_append [OF m] wide_unit(3) [OF m]) simp_all
  then show ?case by simp
qed

lemma wide_spaces:
  assumes m: "lineModel E S"
  shows "wide E S (replicate n SPACE) (int n)"
proof (induction n)
  case 0
  then show ?case by (simp add: wide_Nil [OF m])
next
  case (Suc n)
  then have "wide E S ([SPACE] @ replicate n SPACE) (1 + int n)"
    by (intro wide_append [OF m] wide_unit(1) [OF m])
  then show ?case by simp
qed

text \<open>Glyphs between styling sequences, and the vertical bar of a row.\<close>

lemma wide_dimmed:
  assumes m: "lineModel E S" and g: "set gs \<subseteq> set boxGlyphs"
  shows "wide E S (dim E @ gs @ reset E) (int (length gs))"
proof -
  have "wide E S (dim E @ gs @ reset E) (0 + (int (length gs) + 0))"
    by (intro wide_append [OF m] wide_style [OF m] wide_glyphs [OF m g])
  then show ?thesis by simp
qed

lemma wide_bar: "lineModel E S \<Longrightarrow> wide E S (dim E @ [BOX_vertical] @ reset E) 1"
  using wide_dimmed [of E S "[BOX_vertical]"] by (simp add: boxGlyphs_def)

text \<open>A printable ASCII text is as wide as it is long.\<close>

lemma wide_ascii:
  assumes m: "lineModel E S"
  shows "\<forall>c \<in> set s. 32 \<le> c \<and> c \<le> 126 \<Longrightarrow> wide E S s (int (length s))"
proof (induction s)
  case Nil
  then show ?case by (simp add: wide_Nil [OF m])
next
  case (Cons c s)
  then have c: "32 \<le> c" "c \<le> 126" by simp_all
  have "wide E S [c] 1"
    using lm_ascii [OF m c] lm_S(1) [OF m] by (simp add: wide_def styled_plain)
  with Cons have "wide E S ([c] @ s) (1 + int (length s))" by (intro wide_append [OF m]) simp_all
  then show ?case by simp
qed

lemma ascii_S: "lineModel E S \<Longrightarrow> \<forall>c \<in> set s. 32 \<le> c \<and> c \<le> 126 \<Longrightarrow> set s \<subseteq> S"
  using lm_ascii [of E S] by auto

text \<open>
  A text that can be drawn in a column \<open>k\<close> wide: it is styled, and it fits the column, or
  it holds no escape character and the column is at least 1 wide. Its cell is \<open>k\<close> wide.
\<close>

lemma truncate_wide:
  assumes m: "lineModel E S" and s: "styled S val"
    and c: "int (stringWidth E val) \<le> k \<or> (set val \<subseteq> S \<and> 1 \<le> k)"
  shows "\<exists>n. n \<le> k \<and> wide E S (truncate E val (Num k)) n"
proof (cases "le_num (sw E val) (Num k)")
  case True
  then show ?thesis using s by (auto simp: truncate_fits sw_def wide_def)
next
  case False
  with c have S: "set val \<subseteq> S" and k: "1 \<le> k" by (simp_all add: sw_def)
  let ?low = "truncateLoop E val (Num k) 0 (length val)"
  have "set (take ?low val) \<subseteq> S" using S by (auto dest: in_set_takeD)
  then have p: "wide E S (take ?low val) (int (stringWidth E (take ?low val)))"
    using lm_S(1) [OF m] by (simp add: wide_def styled_plain)
  have le: "int (stringWidth E (take ?low val)) + 1 \<le> k"
  proof (cases "?low = 0")
    case True
    then show ?thesis using k lm_Nil [OF m] by simp
  next
    case False
    with truncateLoop_result [of E val "Num k" 0 "length val"] show ?thesis by (simp add: fits_def)
  qed
  have t: "ellipsisTail E = [ELLIPSIS] @ reset E" by (simp add: ellipsisTail_def reset_def)
  have "wide E S (take ?low val @ [ELLIPSIS] @ reset E) (int (stringWidth E (take ?low val)) + (1 + 0))"
    by (intro wide_append [OF m] p wide_unit(2) [OF m] wide_style(2) [OF m])
  then show ?thesis using le False by (auto simp: truncate_cut t)
qed

lemma pad_wide:
  assumes m: "lineModel E S" and w: "wide E S t n" and le: "n \<le> k"
  shows "wide E S (padRight E t (Num k)) k" "wide E S (padLeft E t (Num k)) k"
proof -
  have n: "int (stringWidth E t) = n" using w by (simp add: wide_def)
  have a: "wide E S (t @ replicate (nat (k - n)) SPACE) (n + int (nat (k - n)))"
    by (intro wide_append [OF m] w wide_spaces [OF m])
  have b: "wide E S (replicate (nat (k - n)) SPACE @ t) (int (nat (k - n)) + n)"
    by (intro wide_append [OF m] w wide_spaces [OF m])
  show "wide E S (padRight E t (Num k)) k"
    using a w le n by (auto simp: padRight_def ge_num_def sw_def)
  show "wide E S (padLeft E t (Num k)) k"
    using b w le n by (auto simp: padLeft_def ge_num_def sw_def)
qed

lemma alignCell_wide:
  assumes m: "lineModel E S" and s: "styled S val"
    and c: "int (stringWidth E val) \<le> k \<or> (set val \<subseteq> S \<and> 1 \<le> k)"
  shows "wide E S (alignCell E numeric val (Num k)) k"
proof -
  from truncate_wide [OF m s c] obtain n where "n \<le> k" "wide E S (truncate E val (Num k)) n" by blast
  from pad_wide [OF m this(2) this(1)] show ?thesis by (simp add: alignCell_def)
qed

lemma framed_wide:
  assumes m: "lineModel E S" and w: "wide E S line n"
  shows "wide E S (framed E line) (n + 4)"
proof -
  let ?bar = "dim E @ [BOX_vertical] @ reset E"
  have "wide E S (?bar @ [SPACE] @ line @ [SPACE] @ ?bar) (1 + (1 + (n + (1 + 1))))"
    by (intro wide_append [OF m] wide_bar [OF m] wide_unit(1) [OF m] w)
  then show ?thesis by (simp add: framed_def algebra_simps)
qed

lemma separator_wide: "lineModel E S \<Longrightarrow> wide E S (separator E) 3"
proof -
  assume m: "lineModel E S"
  have "wide E S ([SPACE] @ (dim E @ [BOX_vertical] @ reset E) @ [SPACE]) (1 + (1 + 1))"
    by (intro wide_append [OF m] wide_bar [OF m] wide_unit(1) [OF m])
  then show ?thesis by (simp add: separator_def)
qed

lemma join_separator_wide:
  assumes m: "lineModel E S"
  shows "xs \<noteq> [] \<Longrightarrow> length ks = length xs \<Longrightarrow> \<forall>i < length xs. wide E S (xs ! i) (ks ! i) \<Longrightarrow>
         wide E S (join (separator E) xs) (sum_list ks + 3 * (int (length xs) - 1))"
proof (induction xs arbitrary: ks rule: induct_list012)
  case 1
  then show ?case by simp
next
  case (2 x)
  then obtain k where "ks = [k]" by (cases ks) auto
  with 2 show ?case by simp
next
  case (3 x y ys)
  then obtain k ks' where ks: "ks = k # ks'" by (cases ks) auto
  with 3 have x: "wide E S x k" by force
  have l: "length ks' = length (y # ys)" using 3 ks by simp
  have "\<forall>i < length (y # ys). wide E S ((y # ys) ! i) (ks' ! i)"
  proof (intro allI impI)
    fix i assume "i < length (y # ys)"
    then have "Suc i < length (x # y # ys)" by simp
    with "3.prems"(3) have "wide E S ((x # y # ys) ! Suc i) (ks ! Suc i)" by blast
    then show "wide E S ((y # ys) ! i) (ks' ! i)" using ks by simp
  qed
  from "3.IH"(2) [OF _ l this]
  have r: "wide E S (join (separator E) (y # ys)) (sum_list ks' + 3 * (int (length (y # ys)) - 1))"
    by simp
  have "wide E S (x @ separator E @ join (separator E) (y # ys))
          (k + (3 + (sum_list ks' + 3 * (int (length (y # ys)) - 1))))"
    by (intro wide_append [OF m] x separator_wide [OF m] r)
  then show ?case using ks by (simp add: algebra_simps)
qed

lemma cellsLine_wide:
  assumes m: "lineModel E S" and len: "length vals = length ks"
    and ok: "\<forall>i < length ks. styled S (vals ! i) \<and>
               (int (stringWidth E (vals ! i)) \<le> ks ! i \<or> (set (vals ! i) \<subseteq> S \<and> 1 \<le> ks ! i))"
  shows "wide E S (cellsLine E numeric (map Num ks) vals) (boxWidth ks)"
proof (cases "ks = []")
  case True
  then have "cellsLine E numeric (map Num ks) vals = framed E []" using len by (simp add: cellsLine_def)
  moreover have "wide E S (framed E []) (0 + 4)" by (intro framed_wide [OF m] wide_Nil [OF m])
  ultimately show ?thesis using True by (simp add: boxWidth_def)
next
  case False
  let ?cells = "map (\<lambda>i. alignCell E (numeric ! i) (vals ! i) (map Num ks ! i)) [0..<length vals]"
  have ne': "?cells \<noteq> []" using False len by simp
  have l: "length ks = length ?cells" using len by simp
  have "\<forall>i < length ?cells. wide E S (?cells ! i) (ks ! i)"
  proof (intro allI impI)
    fix i assume "i < length ?cells"
    then have i: "i < length ks" using len by simp
    with ok have "styled S (vals ! i)"
      and "int (stringWidth E (vals ! i)) \<le> ks ! i \<or> (set (vals ! i) \<subseteq> S \<and> 1 \<le> ks ! i)" by simp_all
    from alignCell_wide [OF m this] i len show "wide E S (?cells ! i) (ks ! i)" by simp
  qed
  from join_separator_wide [OF m ne' l this]
  have "wide E S (join (separator E) ?cells) (sum_list ks + 3 * (int (length ks) - 1))"
    using len by simp
  from framed_wide [OF m this] show ?thesis using False by (simp add: cellsLine_def boxWidth_def)
qed

text \<open>The borders: their length, their glyphs and their width.\<close>

lemma join_length:
  "xs \<noteq> [] \<Longrightarrow>
   int (length (join sep xs)) = (\<Sum>x\<leftarrow>xs. int (length x)) + (int (length xs) - 1) * int (length sep)"
  by (induction xs rule: induct_list012) (simp_all add: algebra_simps)

lemma rules_length:
  "\<forall>k \<in> set ks. 0 \<le> k \<Longrightarrow> (\<Sum>x\<leftarrow>map ruleOf (map Num ks). int (length x)) = sum_list ks"
  by (induction ks) (simp_all add: ruleOf_def)

lemma borderText_length:
  assumes nn: "\<forall>k \<in> set ks. 0 \<le> k"
  shows "int (length (borderText left cross right (map Num ks))) = boxWidth ks"
proof (cases "ks = []")
  case True
  then show ?thesis by (simp add: borderText_def boxWidth_def)
next
  case False
  then have ne: "map ruleOf (map Num ks) \<noteq> []" by simp
  show ?thesis
    using False join_length [OF ne, of "[BOX_horizontal, cross, BOX_horizontal]"] rules_length [OF nn]
    by (simp add: borderText_def boxWidth_def)
qed

lemma set_join: "set (join sep xs) \<subseteq> set sep \<union> \<Union> (set ` set xs)"
  by (induction sep xs rule: join.induct) auto

lemma borderText_glyphs:
  assumes g: "left \<in> set boxGlyphs" "cross \<in> set boxGlyphs" "right \<in> set boxGlyphs"
  shows "set (borderText left cross right ws) \<subseteq> set boxGlyphs"
proof -
  have h: "BOX_horizontal \<in> set boxGlyphs" by (simp add: boxGlyphs_def)
  have "set (ruleOf w) \<subseteq> set boxGlyphs" for w
    using h by (cases w) (auto simp: ruleOf_def)
  then have "\<Union> (set ` set (map ruleOf ws)) \<subseteq> set boxGlyphs" by auto
  with set_join [of "[BOX_horizontal, cross, BOX_horizontal]" "map ruleOf ws"] g h
  have "set (join [BOX_horizontal, cross, BOX_horizontal] (map ruleOf ws)) \<subseteq> set boxGlyphs" by auto
  with g h show ?thesis by (auto simp: borderText_def)
qed

lemma border_wide:
  assumes m: "lineModel E S" and nn: "\<forall>k \<in> set ks. 0 \<le> k"
    and g: "left \<in> set boxGlyphs" "cross \<in> set boxGlyphs" "right \<in> set boxGlyphs"
  shows "wide E S (dim E @ borderText left cross right (map Num ks) @ reset E) (boxWidth ks)"
  using wide_dimmed [OF m borderText_glyphs [OF g, of "map Num ks"]] borderText_length [OF nn, of left cross right]
  by simp

lemma separatorText_wide:
  assumes m: "lineModel E S" and nn: "\<forall>k \<in> set ks. 0 \<le> k"
  shows "wide E S (separatorText E (map Num ks)) (boxWidth ks)"
  unfolding separatorText_def
  by (rule border_wide [OF m nn]) (simp_all add: boxGlyphs_def)

lemma titleDisplay_wide:
  assumes m: "lineModel E S" and t: "styled S t"
  shows "wide E S ([SPACE] @ t @ [SPACE]) (int (stringWidth E t) + 2)"
proof -
  have "wide E S t (int (stringWidth E t))" using t by (simp add: wide_def)
  then have "wide E S ([SPACE] @ t @ [SPACE]) (1 + (int (stringWidth E t) + 1))"
    by (intro wide_append [OF m] wide_unit(1) [OF m])
  then show ?thesis by (simp add: algebra_simps)
qed

text \<open>The title line of a box whose border is \<open>b\<close>, when the title leaves room for the corner.\<close>

lemma titled_wide:
  assumes m: "lineModel E S" and t: "styled S t" and g: "set b \<subseteq> set boxGlyphs"
    and room: "stringWidth E t + 4 \<le> length b"
  shows "wide E S (dim E @ take 2 b @ reset E @ bold E @ ([SPACE] @ t @ [SPACE]) @ reset E @ dim E
                   @ drop (2 + stringWidth E ([SPACE] @ t @ [SPACE])) b @ reset E) (int (length b))"
proof -
  let ?n = "2 + stringWidth E ([SPACE] @ t @ [SPACE])"
  note td = titleDisplay_wide [OF m t]
  then have n: "?n = stringWidth E t + 4" by (simp add: wide_def)
  have g2: "set (take 2 b) \<subseteq> set boxGlyphs" using g by (auto dest: in_set_takeD)
  have gd: "set (drop ?n b) \<subseteq> set boxGlyphs" using g by (auto dest: in_set_dropD)
  have "wide E S (dim E @ take 2 b @ reset E @ bold E @ ([SPACE] @ t @ [SPACE]) @ reset E @ dim E
                   @ drop ?n b @ reset E)
          (0 + (int (length (take 2 b)) + (0 + (0 + ((int (stringWidth E t) + 2)
             + (0 + (0 + (int (length (drop ?n b)) + 0))))))))"
    by (intro wide_append [OF m] wide_style [OF m] wide_glyphs [OF m g2] wide_glyphs [OF m gd] td)
  moreover have "int (length (take 2 b)) = 2" using room by simp
  moreover have "int (length (drop ?n b)) = int (length b) - (int (stringWidth E t) + 4)"
    using room n by simp
  ultimately show ?thesis by simp
qed

lemma topText_wide:
  assumes m: "lineModel E S" and nn: "\<forall>k \<in> set ks. 0 \<le> k"
    and t: "hasTitle t \<longrightarrow> styled S (the t)"
    and fit: "hasTitle t \<longrightarrow> int (stringWidth E (the t)) + 4 \<le> boxWidth ks"
  shows "wide E S (topText E t (map Num ks)) (boxWidth ks)"
proof (cases "hasTitle t")
  case False
  then show ?thesis
    unfolding topText_def using border_wide [OF m nn, of BOX_topLeft BOX_topCross BOX_topRight]
    by (simp add: boxGlyphs_def)
next
  case True
  define b where "b = borderText BOX_topLeft BOX_topCross BOX_topRight (map Num ks)"
  have gb: "set b \<subseteq> set boxGlyphs" unfolding b_def by (rule borderText_glyphs) (simp_all add: boxGlyphs_def)
  have bl: "int (length b) = boxWidth ks" unfolding b_def by (rule borderText_length [OF nn])
  have room: "stringWidth E (the t) + 4 \<le> length b" using fit True bl by linarith
  have st: "styled S (the t)" using t True by simp
  have "topText E t (map Num ks) =
        dim E @ take 2 b @ reset E @ bold E @ ([SPACE] @ the t @ [SPACE]) @ reset E @ dim E
        @ drop (2 + stringWidth E ([SPACE] @ the t @ [SPACE])) b @ reset E"
    using True by (simp add: topText_def b_def)
  then show ?thesis using titled_wide [OF m st gb room] bl by simp
qed

text \<open>The trailer: its text is printable ASCII, cut to the inner width and padded.\<close>

lemma ascii_showNat: "\<forall>c \<in> set (showNat n). 32 \<le> c \<and> c \<le> 126"
proof (induction n rule: showNat.induct)
  case (1 n)
  show ?case
  proof (cases "n < 10")
    case True
    then show ?thesis using showNat.simps [of n] by simp
  next
    case False
    then have "\<forall>c \<in> set (showNat (n div 10)). 32 \<le> c \<and> c \<le> 126" by (rule "1.IH")
    moreover have "n mod 10 < 10" by simp
    ultimately show ?thesis using False showNat.simps [of n] by auto
  qed
qed

lemma ascii_join:
  "\<forall>c \<in> set sep. 32 \<le> c \<and> c \<le> (126::nat) \<Longrightarrow> \<forall>x \<in> set xs. \<forall>c \<in> set x. 32 \<le> c \<and> c \<le> 126 \<Longrightarrow>
   \<forall>c \<in> set (join sep xs). 32 \<le> c \<and> c \<le> 126"
  using set_join [of sep xs] by blast

lemma ascii_infoText: "\<forall>c \<in> set (infoText t h). 32 \<le> c \<and> c \<le> 126"
proof -
  have i: "\<forall>c \<in> set (showInt t). 32 \<le> c \<and> c \<le> 126"
    using ascii_showNat by (auto simp: showInt_def)
  have s: "\<forall>c \<in> set (js '', ''). 32 \<le> c \<and> c \<le> 126" by (simp add: js_simps)
  have "\<forall>x \<in> set ((if t > 0 then [showInt t @ js '' more row'' @ (if t > 1 then js ''s'' else [])] else []) @
                   (if h > 0 then [showNat h @ js '' more column'' @ (if h > 1 then js ''s'' else [])] else [])).
          \<forall>c \<in> set x. 32 \<le> c \<and> c \<le> 126"
    using i ascii_showNat [of h] by (auto simp: js_simps)
  from ascii_join [OF s this] show ?thesis by (auto simp: infoText_def Let_def js_simps)
qed

lemma infoLine_wide:
  fixes L :: layout
  assumes m: "lineModel E S" and i: "lInnerWidth L = Num inner" and pos: "1 \<le> inner"
    and a: "\<forall>c \<in> set (lInfoText L). 32 \<le> c \<and> c \<le> 126"
  shows "wide E S (infoLine E L) (inner + 4)"
proof -
  let ?padded = "padRight E (truncate E (lInfoText L) (Num inner)) (Num inner)"
  have S: "set (lInfoText L) \<subseteq> S" by (rule ascii_S [OF m a])
  then have "styled S (lInfoText L)" using lm_S(1) [OF m] by (simp add: styled_plain)
  from truncate_wide [OF m this, of inner] S pos
  obtain n where "n \<le> inner" "wide E S (truncate E (lInfoText L) (Num inner)) n" by blast
  from pad_wide(1) [OF m this(2) this(1)] have p: "wide E S ?padded inner" .
  have b: "wide E S [BOX_vertical] 1" by (rule wide_unit(3) [OF m]) (simp add: boxGlyphs_def)
  have "wide E S (dim E @ [BOX_vertical] @ [SPACE] @ ?padded @ [SPACE] @ [BOX_vertical] @ reset E)
          (0 + (1 + (1 + (inner + (1 + (1 + 0))))))"
    by (intro wide_append [OF m] wide_style [OF m] wide_unit(1) [OF m] b p)
  then show ?thesis by (simp add: infoLine_def i algebra_simps)
qed

lemma concat_replicate_single: "concat (replicate k [c]) = replicate k c"
  by (induction k) simp_all

lemma trailer_wide:
  fixes L :: layout
  assumes m: "lineModel E S" and ws: "lWidths L = map Num ks" and nn: "\<forall>k \<in> set ks. 0 \<le> k"
    and i: "lInnerWidth L = Num inner" and ti: "lTotalInnerWidth L = Num (inner + 2)"
    and info: "lInfoText L \<noteq> [] \<longrightarrow> 1 \<le> inner \<and> boxWidth ks = inner + 4"
    and a: "\<forall>c \<in> set (lInfoText L). 32 \<le> c \<and> c \<le> 126"
  shows "snd (run (trailer E (lInfoText L) (lInnerWidth L) (lTotalInnerWidth L) (lWidths L))) = None \<and>
         (\<forall>line \<in> set (fst (run (trailer E (lInfoText L) (lInnerWidth L) (lTotalInnerWidth L) (lWidths L)))).
            wide E S line (boxWidth ks))"
proof (cases "lInfoText L = []")
  case True
  have d: "list_all drawable (map Num ks)" using nn by (auto simp: list_all_iff drawable_def)
  have "wide E S (dim E @ borderText BOX_bottomLeft BOX_bottomCross BOX_bottomRight (map Num ks) @ reset E)
          (boxWidth ks)"
    by (rule border_wide [OF m nn]) (simp_all add: boxGlyphs_def)
  then show ?thesis unfolding True ws trailer_none [OF d] by simp
next
  case False
  with info have pos: "1 \<le> inner" and b: "boxWidth ks = inner + 4" by simp_all
  have r: "repeat [BOX_horizontal] (Num (inner + 2)) = Inr (replicate (nat (inner + 2)) BOX_horizontal)"
    using pos by (simp add: repeat_def concat_replicate_single)
  have "set ([BOX_bottomLeft] @ replicate (nat (inner + 2)) BOX_horizontal @ [BOX_bottomRight])
        \<subseteq> set boxGlyphs" by (auto simp: boxGlyphs_def)
  from wide_dimmed [OF m this] pos
  have "wide E S (dim E @ [BOX_bottomLeft] @ replicate (nat (inner + 2)) BOX_horizontal
                    @ [BOX_bottomRight] @ reset E) (inner + 4)"
    by (simp add: algebra_simps)
  moreover have "wide E S (infoLine E L) (inner + 4)" by (rule infoLine_wide [OF m i pos a])
  ultimately show ?thesis
    unfolding trailer_info [OF False] ti r b by (simp add: infoLine_def i)
qed
text \<open>
  The layout on a terminal of at least 7 columns, for a table with a column: every final
  width is a number that is not negative, a column is at least one column wide or wide
  enough for its name and its cells, and the box is as wide as the inner width plus 4.
\<close>

lemma sum_list_const: "\<forall>k \<in> set ks. k = c \<Longrightarrow> sum_list ks = c * int (length ks)"
  by (induction ks) (simp_all add: algebra_simps)

lemma sum_list_nonneg_int: "\<forall>k \<in> set ks. (0::int) \<le> k \<Longrightarrow> 0 \<le> sum_list ks"
  by (induction ks) auto

lemma elem_le_sum_int: "\<forall>k \<in> set ks. (0::int) \<le> k \<Longrightarrow> i < length ks \<Longrightarrow> ks ! i \<le> sum_list ks"
proof (induction ks arbitrary: i)
  case Nil
  then show ?case by simp
next
  case (Cons k ks)
  then have "0 \<le> sum_list ks" by (intro sum_list_nonneg_int) simp
  with Cons show ?case by (cases i) (auto simp: add_increasing)
qed

lemma expand_sum:
  assumes "ks \<noteq> []"
  shows "sum_list (ks [length ks - 1 := ks ! (length ks - 1) + d]) = sum_list ks + (d::int)"
  using assms by (simp add: sum_list_update_int)

lemma layout_exact:
  fixes E opts rowCount displayRows allColumns
  defines "L \<equiv> tableLayout E opts rowCount displayRows allColumns"
  defines "natural \<equiv> naturalWidths E allColumns (map (formatRow E allColumns) displayRows)"
  assumes t7: "7 \<le> getTerminalWidth E" and cols: "allColumns \<noteq> []"
  shows "\<exists>ks inner.
           lWidths L = map Num ks \<and> ks \<noteq> [] \<and> length ks \<le> length allColumns \<and>
           (\<forall>k \<in> set ks. 0 \<le> k) \<and>
           (\<forall>i < length ks. 1 \<le> ks ! i \<or> natural ! i \<le> ks ! i) \<and>
           lInnerWidth L = Num inner \<and> lTotalInnerWidth L = Num (inner + 2) \<and>
           boxWidth ks = inner + 4 \<and> inner \<le> getTerminalWidth E - 4 \<and>
           (hasTitle (title opts) \<or> 2 \<le> length ks \<or> 0 < natural ! 0 \<longrightarrow> 1 \<le> inner) \<and>
           (hasTitle (title opts) \<longrightarrow>
              min (int (stringWidth E (the (title opts))) + 4) (getTerminalWidth E - 4) \<le> inner) \<and>
           lColumns L = take (length ks) allColumns \<and>
           lRows L = map (take (length ks)) (map (formatRow E allColumns) displayRows)"
proof -
  define t where "t = getTerminalWidth E"
  define frs where "frs = map (formatRow E allColumns) displayRows"
  define v where "v = visibleCount t (length allColumns)"
  define av where "av = t - (4 + (int v - 1) * 3)"
  define vs where "vs = take v natural"
  have v1: "1 \<le> v" using visibleCount_pos [of "length allColumns" t] cols by (simp add: v_def)
  have vn: "v \<le> length allColumns" unfolding v_def by (rule visibleCount_le)
  have fl: "\<forall>f \<in> set frs. length f = length allColumns" by (auto simp: frs_def formatRow_length)
  have nl: "length natural = length allColumns"
    unfolding natural_def frs_def [symmetric] by (rule naturalWidths_spec(1) [OF fl])
  have lvs: "length vs = v" using nl vn by (simp add: vs_def)
  have nn: "\<forall>x \<in> set vs. 0 \<le> x"
    using naturalWidths_nonneg [OF fl, of E] by (auto simp: vs_def natural_def frs_def dest: in_set_takeD)
  have len: "length (take v allColumns) = length vs" using lvs vn by simp
  have room: "3 * int v \<le> av" unfolding av_def v_def using t7 by (intro available_room) (simp add: t_def)
  then have av0: "0 \<le> av" by linarith
  from compress_numbers [OF nn len av0, of E] obtain ks0 where
    c0: "compressWidths E av (take v allColumns) vs = map Num ks0" and l0: "length ks0 = v"
    and nn0: "\<forall>k \<in> set ks0. 0 \<le> k"
    and keep: "sum_list vs \<le> av \<longrightarrow> ks0 = vs"
    and over: "av < sum_list vs \<longrightarrow> (\<forall>k \<in> set ks0. minColWidth \<le> k) \<and>
                 (sum_list ks0 \<le> av \<or> (\<forall>k \<in> set ks0. k = minColWidth))"
    using lvs by auto
  have ks0: "(\<forall>i < v. 1 \<le> ks0 ! i \<or> vs ! i \<le> ks0 ! i) \<and> sum_list ks0 \<le> av"
  proof (cases "sum_list vs \<le> av")
    case True
    with keep show ?thesis by simp
  next
    case False
    with over have fl3: "\<forall>k \<in> set ks0. minColWidth \<le> k"
      and alt: "sum_list ks0 \<le> av \<or> (\<forall>k \<in> set ks0. k = minColWidth)" by simp_all
    have a: "\<forall>i < v. 1 \<le> ks0 ! i"
    proof (intro allI impI)
      fix i assume "i < v"
      then have "ks0 ! i \<in> set ks0" using l0 by simp
      with fl3 have "minColWidth \<le> ks0 ! i" by blast
      then show "1 \<le> ks0 ! i" by (simp add: minColWidth_def)
    qed
    from alt have "sum_list ks0 \<le> av"
    proof
      assume "\<forall>k \<in> set ks0. k = minColWidth"
      then have "sum_list ks0 = minColWidth * int (length ks0)" by (rule sum_list_const)
      then show ?thesis using room l0 by (simp add: minColWidth_def)
    qed simp
    with a show ?thesis by simp
  qed
  have ne0: "ks0 \<noteq> []" using l0 v1 by auto
  define c where "c = sum_list ks0 + (int v - 1) * 3"
  define tw where "tw = (if hasTitle (title opts) then int (stringWidth E (the (title opts))) + 4 else 0)"
  define inner where "inner = min (max c tw) (t - 4)"
  define ks where "ks = (if c < inner \<and> ks0 \<noteq> [] then ks0 [length ks0 - 1 := ks0 ! (length ks0 - 1) + (inner - c)] else ks0)"
  have ct: "c \<le> t - 4" using ks0 by (simp add: c_def av_def)
  then have ci: "c \<le> inner" by (simp add: inner_def)
  have s0: "0 \<le> sum_list ks0" using nn0 by (rule sum_list_nonneg_int)
  have wL: "lWidths L = expandLast (map Num ks0) (Num inner) (Num c)"
    unfolding L_def tableLayout_fields(5)
    using c0 by (simp add: sum_num_Num t_def v_def av_def vs_def frs_def natural_def c_def tw_def inner_def)
  then have w: "lWidths L = map Num ks" by (simp only: expandLast_numbers ks_def)
  have iL: "lInnerWidth L = Num inner"
    unfolding L_def tableLayout_fields(6)
    using c0 by (simp add: sum_num_Num t_def v_def av_def vs_def frs_def natural_def c_def tw_def inner_def)
  have tL: "lTotalInnerWidth L = Num (inner + 2)"
    unfolding L_def tableLayout_fields(7)
    using c0 by (simp add: sum_num_Num t_def v_def av_def vs_def frs_def natural_def c_def tw_def inner_def)
  have lk: "length ks = v" using l0 by (simp add: ks_def)
  have nek: "ks \<noteq> []" using lk v1 by auto
  have grow: "\<forall>i < v. ks0 ! i \<le> ks ! i"
  proof (cases "c < inner \<and> ks0 \<noteq> []")
    case False
    then show ?thesis by (simp add: ks_def)
  next
    case True
    then have "0 \<le> inner - c" by simp
    from update_ge [OF _ this, of _ ks0 "length ks0 - 1"] l0 True show ?thesis by (simp add: ks_def)
  qed
  have nnk: "\<forall>k \<in> set ks. 0 \<le> k"
  proof
    fix k assume "k \<in> set ks"
    then obtain i where i: "i < v" "k = ks ! i" using lk by (auto simp: in_set_conv_nth)
    then have "ks0 ! i \<in> set ks0" using l0 by simp
    with nn0 grow i show "0 \<le> k" by force
  qed
  have fitk: "\<forall>i < length ks. 1 \<le> ks ! i \<or> natural ! i \<le> ks ! i"
  proof (intro allI impI)
    fix i assume "i < length ks"
    then have i: "i < v" using lk by simp
    then have "vs ! i = natural ! i" by (simp add: vs_def)
    with ks0 grow i show "1 \<le> ks ! i \<or> natural ! i \<le> ks ! i" by force
  qed
  have sum: "sum_list ks + 3 * (int (length ks) - 1) = inner"
  proof (cases "c < inner")
    case True
    then have "ks = ks0 [length ks0 - 1 := ks0 ! (length ks0 - 1) + (inner - c)]"
      using ne0 by (simp add: ks_def)
    then have "sum_list ks = sum_list ks0 + (inner - c)" by (simp only: expand_sum [OF ne0])
    then show ?thesis using lk by (simp add: c_def)
  next
    case False
    with ci have "c = inner" by simp
    moreover have "ks = ks0" using False by (simp add: ks_def)
    ultimately show ?thesis using lk l0 by (simp add: c_def)
  qed
  then have box: "boxWidth ks = inner + 4" using nek by (simp add: boxWidth_def)
  have it: "inner \<le> getTerminalWidth E - 4" by (simp add: inner_def t_def)
  have i1: "hasTitle (title opts) \<or> 2 \<le> length ks \<or> 0 < natural ! 0 \<longrightarrow> 1 \<le> inner"
  proof
    assume "hasTitle (title opts) \<or> 2 \<le> length ks \<or> 0 < natural ! 0"
    then consider (title) "hasTitle (title opts)" | (two) "2 \<le> length ks" | (wide) "0 < natural ! 0"
      by blast
    then show "1 \<le> inner"
    proof cases
      case title
      then have "4 \<le> tw" by (simp add: tw_def)
      then show ?thesis using t7 by (simp add: inner_def t_def)
    next
      case two
      then have "3 \<le> c" using s0 lk by (simp add: c_def)
      with ci show ?thesis by simp
    next
      case wide
      have "vs ! 0 = natural ! 0" using v1 by (simp add: vs_def)
      with ks0 v1 wide have "1 \<le> ks0 ! 0" by force
      moreover have "ks0 ! 0 \<le> sum_list ks0" using nn0 l0 v1 by (intro elem_le_sum_int) simp_all
      ultimately have "1 \<le> c" using v1 by (simp add: c_def)
      with ci show ?thesis by simp
    qed
  qed
  have ti: "hasTitle (title opts) \<longrightarrow>
              min (int (stringWidth E (the (title opts))) + 4) (getTerminalWidth E - 4) \<le> inner"
    by (auto simp: inner_def tw_def t_def)
  have lc: "lColumns L = take (length ks) allColumns"
    unfolding L_def tableLayout_fields(1) using lk by (simp add: v_def t_def)
  have lr: "lRows L = map (take (length ks)) (map (formatRow E allColumns) displayRows)"
    unfolding L_def tableLayout_fields(3) using lk by (simp add: v_def t_def)
  have lka: "length ks \<le> length allColumns" using lk vn by simp
  from w nek lka nnk fitk iL tL box it i1 ti lc lr show ?thesis by blast
qed

text \<open>The layout of a table without columns.\<close>

lemma layout_no_column:
  fixes E opts rowCount displayRows
  defines "L \<equiv> tableLayout E opts rowCount displayRows []"
  assumes t7: "7 \<le> getTerminalWidth E"
  shows "lWidths L = [] \<and> lColumns L = [] \<and> lRows L = map (\<lambda>r. []) displayRows \<and>
         (\<exists>inner. lInnerWidth L = Num inner \<and> lTotalInnerWidth L = Num (inner + 2))"
proof -
  have v: "visibleCount (getTerminalWidth E) (length ([] :: jstr list)) = 0"
    by (simp add: visibleCount_def)
  have n: "naturalWidths E [] (map (formatRow E []) displayRows) = []"
    using naturalWidths_spec(1) [of "map (formatRow E []) displayRows" "[]" E]
    by (simp add: formatRow_def)
  have c: "compressWidths E (getTerminalWidth E - 1) [] [] = []"
    using t7 by (simp add: compressWidths_def)
  have w: "lWidths L = []"
    unfolding L_def tableLayout_fields(5) v n by (simp add: c expandLast_def)
  have "lInnerWidth L = min_num (max_num (Num (- 3))
            (Num (if hasTitle (title opts) then int (stringWidth E (the (title opts))) + 4 else 0)))
          (Num (getTerminalWidth E - 4))"
    unfolding L_def tableLayout_fields(6) v n by (simp add: c sum_num_def)
  then obtain inner where i: "lInnerWidth L = Num inner" by simp
  have "lTotalInnerWidth L = add_num (lInnerWidth L) (Num 2)"
    unfolding L_def tableLayout_fields(7) tableLayout_fields(6) ..
  then have ti: "lTotalInnerWidth L = Num (inner + 2)" using i by simp
  have cs: "lColumns L = []" unfolding L_def tableLayout_fields(1) by simp
  have rs: "lRows L = map (\<lambda>r. []) displayRows"
    unfolding L_def tableLayout_fields(3) by (simp add: formatRow_def)
  from w cs rs i ti show ?thesis by blast
qed

text \<open>
  Full-content mode. The pieces of a styled text between its runs of spaces are styled, and
  when the text fits the width, so does each of its wrapped lines. Whatever the text, its
  wrapped lines are made of its code units, with spaces for its line breaks.
\<close>

lemma styledFrom_space:
  "styledFrom S st (a @ SPACE # b) \<Longrightarrow> styledFrom S st a \<and> styled S (SPACE # b)"
proof (induction a arbitrary: st)
  case Nil
  then show ?case by (cases st) (simp_all add: styled_def SPACE_def)
next
  case (Cons c a)
  show ?case
  proof (cases st)
    case Normal
    with Cons show ?thesis by (auto split: if_splits)
  next
    case AfterEsc
    with Cons.prems have c: "c = 91" and s: "styledFrom S InCsi (a @ SPACE # b)" by simp_all
    from s have "a \<noteq> []" by (cases a) (simp_all add: SPACE_def)
    moreover from this Cons.prems AfterEsc have "hd a \<noteq> 109" by simp
    ultimately show ?thesis using Cons.IH [OF s] c AfterEsc by simp
  next
    case InCsi
    with Cons show ?thesis by (auto split: if_splits)
  qed
qed

lemma styled_space: "styled S (a @ SPACE # b) \<Longrightarrow> styled S a \<and> styled S (SPACE # b)"
  unfolding styled_def [of S "a @ SPACE # b"] styled_def [of S a] by (rule styledFrom_space)

lemma styled_drop_plain: "set a \<subseteq> S \<Longrightarrow> 27 \<notin> S \<Longrightarrow> styled S (a @ b) \<Longrightarrow> styled S b"
  unfolding styled_def by (induction a) (auto split: if_splits)

lemma tokens_styled:
  "27 \<notin> S \<Longrightarrow> SPACE \<in> S \<Longrightarrow> styled S s \<Longrightarrow> \<forall>t \<in> set (tokens s). styled S t"
proof (induction s rule: tokens.induct)
  case (1 s)
  let ?word = "takeWhile (\<lambda>c. c \<noteq> SPACE) s"
  let ?rest = "dropWhile (\<lambda>c. c \<noteq> SPACE) s"
  let ?spaces = "takeWhile (\<lambda>c. c = SPACE) ?rest"
  let ?more = "dropWhile (\<lambda>c. c = SPACE) ?rest"
  show ?case
  proof (cases "?rest = []")
    case True
    then have tw: "?word = s" using takeWhile_dropWhile_id [of "\<lambda>c. c \<noteq> SPACE" s] by simp
    have "tokens s = [?word]" using True tokens.simps [of s] by (simp add: Let_def)
    then have "tokens s = [s]" by (simp only: tw)
    then show ?thesis using "1.prems"(3) by simp
  next
    case False
    then have "hd ?rest = SPACE" using hd_dropWhile [of "\<lambda>c. c \<noteq> SPACE" s] by simp
    with False obtain r where r: "?rest = SPACE # r" by (cases ?rest) auto
    have "s = ?word @ SPACE # r" using takeWhile_dropWhile_id [of "\<lambda>c. c \<noteq> SPACE" s] r by simp
    with "1.prems"(3) have "styled S (?word @ SPACE # r)" by simp
    from styled_space [OF this] have w: "styled S ?word" and sr: "styled S ?rest" using r by simp_all
    have sp: "set ?spaces \<subseteq> S" using "1.prems"(2) by (auto dest: set_takeWhileD)
    then have ss: "styled S ?spaces" using "1.prems"(1) by (rule styled_plain)
    have "styled S (?spaces @ ?more)" using sr by simp
    from styled_drop_plain [OF sp "1.prems"(1) this] have sm: "styled S ?more" .
    from "1.IH" [OF refl refl False "1.prems"(1,2) sm]
    have "\<forall>t \<in> set (tokens ?more). styled S t" .
    with w ss show ?thesis using False tokens.simps [of s] by (simp add: Let_def)
  qed
qed

lemma wide_le:
  assumes m: "lineModel E S" and a: "styled S a" and b: "styled S b"
  shows "stringWidth E a \<le> stringWidth E (a @ b)" "stringWidth E b \<le> stringWidth E (a @ b)"
  using lm_append [OF m a b] by simp_all

lemma wrapFragment_fit:
  assumes ng: "\<not> gt_num (sw E (current @ token)) w"
  shows "wrapFragment E w current token lines = (current @ token, lines)"
proof (cases "token = []")
  case True
  then show ?thesis using wrapFragment.simps [of E w current token lines] by simp
next
  case False
  then have "wrapFragment E w current token lines = wrapFragment E w (current @ token) [] lines"
    using wrapFragment.simps [of E w current token lines] ng by simp
  also have "\<dots> = (current @ token, lines)"
    using wrapFragment.simps [of E w "current @ token" "[]" lines] by simp
  finally show ?thesis .
qed

lemma wrapTokens_fit:
  assumes m: "lineModel E S"
  shows "styled S current \<Longrightarrow> \<forall>t \<in> set toks. styled S t \<Longrightarrow>
         int (stringWidth E (current @ concat toks)) \<le> k \<Longrightarrow>
         \<forall>l \<in> set lines. styled S l \<and> int (stringWidth E l) \<le> k \<Longrightarrow>
         (\<forall>l \<in> set (fst (wrapTokens E (Num k) toks current lines) # snd (wrapTokens E (Num k) toks current lines)).
            styled S l \<and> int (stringWidth E l) \<le> k)"
proof (induction toks arbitrary: current lines)
  case Nil
  then show ?case by simp
next
  case (Cons token rest)
  have st: "styled S token" and sr: "styled S (concat rest)"
    using Cons.prems(2) by (simp_all add: styled_concat)
  have sct: "styled S (current @ token)" using Cons.prems(1) st by (rule styled_append)
  have "stringWidth E (current @ token) \<le> stringWidth E ((current @ token) @ concat rest)"
    by (rule wide_le(1) [OF m sct sr])
  with Cons.prems(3) have le: "int (stringWidth E (current @ token)) \<le> k" by simp
  then have "\<not> gt_num (sw E (current @ token)) (Num k)" by (simp add: gt_num_def sw_def)
  from wrapFragment_fit [OF this]
  have f: "wrapFragment E (Num k) current token lines = (current @ token, lines)" .
  have rs: "\<forall>t \<in> set rest. styled S t" using Cons.prems(2) by simp
  show ?case
  proof (cases "ge_num (sw E (current @ token)) (Num k)")
    case True
    have "stringWidth E (concat rest) \<le> stringWidth E ((current @ token) @ concat rest)"
      by (rule wide_le(2) [OF m sct sr])
    with Cons.prems(3) have r: "int (stringWidth E ([] @ concat rest)) \<le> k" by simp
    have l: "\<forall>l \<in> set (lines @ [current @ token]). styled S l \<and> int (stringWidth E l) \<le> k"
      using Cons.prems(4) sct le by simp
    from Cons.IH [OF styled_Nil rs r l] True f show ?thesis by simp
  next
    case False
    have r: "int (stringWidth E ((current @ token) @ concat rest)) \<le> k" using Cons.prems(3) by simp
    from Cons.IH [OF sct rs r Cons.prems(4)] False f show ?thesis by simp
  qed
qed

lemma wrapLines_fit:
  assumes m: "lineModel E S" and s: "styled S val" and f: "int (stringWidth E val) \<le> k"
  shows "\<forall>l \<in> set (wrapLines E val (Num k)). styled S l \<and> int (stringWidth E l) \<le> k"
proof -
  have nl: "NEWLINE \<notin> set val" by (rule styled_nl [OF s lm_S(2) [OF m]])
  have raw: "map (\<lambda>c. if c = NEWLINE then SPACE else c) val = val"
    using nl by (intro map_idI) auto
  have k0: "0 \<le> k" using f by simp
  have toks: "\<forall>t \<in> set (tokens val). styled S t"
    by (rule tokens_styled [OF lm_S(1) [OF m] lm_S(3) [OF m] s])
  have "int (stringWidth E ([] @ concat (tokens val))) \<le> k" using f by (simp add: concat_tokens)
  from wrapTokens_fit [OF m styled_Nil toks this, of "[]"]
  have *: "\<forall>l \<in> set (fst (wrapTokens E (Num k) (tokens val) [] []) # snd (wrapTokens E (Num k) (tokens val) [] [])).
            styled S l \<and> int (stringWidth E l) \<le> k" by simp
  show ?thesis
  proof (cases "val = []")
    case True
    then show ?thesis using k0 lm_Nil [OF m] by (simp add: wrapLines_def styled_Nil)
  next
    case False
    obtain c ls where r: "wrapTokens E (Num k) (tokens val) [] [] = (c, ls)"
      by (cases "wrapTokens E (Num k) (tokens val) [] []")
    from False have "wrapLines E val (Num k) = (if length c > 0 then ls @ [c] else ls)"
      using r by (simp add: wrapLines_def raw Let_def)
    then show ?thesis using * r by auto
  qed
qed

lemma wrapFragment_set:
  "set current \<subseteq> S \<Longrightarrow> set fragment \<subseteq> S \<Longrightarrow> \<forall>l \<in> set lines. set l \<subseteq> S \<Longrightarrow>
   set (fst (wrapFragment E w current fragment lines)) \<subseteq> S \<and>
   (\<forall>l \<in> set (snd (wrapFragment E w current fragment lines)). set l \<subseteq> S)"
proof (induction E w current fragment lines rule: wrapFragment.induct)
  case (1 E w current fragment lines)
  note eq = wrapFragment.simps [of E w current fragment lines]
  show ?case
  proof (cases "length fragment > 0")
    case False
    then have "wrapFragment E w current fragment lines = (current, lines)" using eq by simp
    then show ?thesis using "1.prems" by simp
  next
    case nonempty: True
    show ?thesis
    proof (cases "gt_num (sw E (current @ fragment)) w")
      case False
      then have step: "wrapFragment E w current fragment lines =
                       wrapFragment E w (current @ fragment) [] lines"
        using eq nonempty by simp
      have c: "set (current @ fragment) \<subseteq> S" using "1.prems" by simp
      have e: "set ([] :: jstr) \<subseteq> S" by simp
      from "1.IH"(3) [OF nonempty False c e "1.prems"(3)] show ?thesis unfolding step .
    next
      case over: True
      show ?thesis
      proof (cases "length current > 0")
        case True
        then have step: "wrapFragment E w current fragment lines =
                         wrapFragment E w [] fragment (lines @ [current])"
          using eq nonempty over by simp
        have e: "set ([] :: jstr) \<subseteq> S" by simp
        have ok: "\<forall>l \<in> set (lines @ [current]). set l \<subseteq> S" using "1.prems" by simp
        from "1.IH"(1) [OF nonempty over True e "1.prems"(2) ok] show ?thesis unfolding step .
      next
        case False
        let ?cut = "cutLoop E w fragment 1"
        from False have step: "wrapFragment E w current fragment lines =
                         wrapFragment E w current (drop ?cut fragment) (lines @ [take ?cut fragment])"
          using eq nonempty over by (simp add: Let_def)
        have d: "set (drop ?cut fragment) \<subseteq> S" using "1.prems"(2) by (auto dest: in_set_dropD)
        have "set (take ?cut fragment) \<subseteq> S" using "1.prems"(2) by (auto dest: in_set_takeD)
        then have ok: "\<forall>l \<in> set (lines @ [take ?cut fragment]). set l \<subseteq> S" using "1.prems" by simp
        from "1.IH"(2) [OF nonempty over False refl "1.prems"(1) d ok] show ?thesis unfolding step .
      qed
    qed
  qed
qed

lemma wrapTokens_set:
  "\<forall>t \<in> set toks. set t \<subseteq> S \<Longrightarrow> set current \<subseteq> S \<Longrightarrow> \<forall>l \<in> set lines. set l \<subseteq> S \<Longrightarrow>
   set (fst (wrapTokens E w toks current lines)) \<subseteq> S \<and>
   (\<forall>l \<in> set (snd (wrapTokens E w toks current lines)). set l \<subseteq> S)"
proof (induction toks arbitrary: current lines)
  case Nil
  then show ?case by simp
next
  case (Cons token rest)
  obtain c' ls' where r: "wrapFragment E w current token lines = (c', ls')"
    by (cases "wrapFragment E w current token lines")
  from wrapFragment_set [of current S token lines E w] Cons.prems r
  have ok: "set c' \<subseteq> S" "\<forall>l \<in> set ls'. set l \<subseteq> S" by simp_all
  have rest: "\<forall>t \<in> set rest. set t \<subseteq> S" using Cons.prems(1) by simp
  show ?case
  proof (cases "ge_num (sw E c') w")
    case True
    have e: "set ([] :: jstr) \<subseteq> S" by simp
    have "\<forall>l \<in> set (ls' @ [c']). set l \<subseteq> S" using ok by simp
    from Cons.IH [OF rest e this] True r show ?thesis by simp
  next
    case False
    from Cons.IH [OF rest ok] False r show ?thesis by simp
  qed
qed

lemma wrapLines_set:
  "\<forall>l \<in> set (wrapLines E str w). set l \<subseteq> set (map (\<lambda>c. if c = NEWLINE then SPACE else c) str)"
proof -
  let ?raw = "map (\<lambda>c. if c = NEWLINE then SPACE else c) str"
  have "\<forall>t \<in> set (tokens ?raw). set t \<subseteq> set ?raw"
  proof
    fix t assume "t \<in> set (tokens ?raw)"
    then have "set t \<subseteq> set (concat (tokens ?raw))" by auto
    then show "set t \<subseteq> set ?raw" by (simp only: concat_tokens)
  qed
  from wrapTokens_set [OF this, of "[]" "[]" E w]
  have *: "set (fst (wrapTokens E w (tokens ?raw) [] [])) \<subseteq> set ?raw \<and>
        (\<forall>l \<in> set (snd (wrapTokens E w (tokens ?raw) [] [])). set l \<subseteq> set ?raw)"
    by simp
  obtain c ls where r: "wrapTokens E w (tokens ?raw) [] [] = (c, ls)"
    by (cases "wrapTokens E w (tokens ?raw) [] []")
  show ?thesis
  proof (cases "?raw = []")
    case True
    then show ?thesis by (simp add: wrapLines_def)
  next
    case False
    then have "wrapLines E str w = (if length c > 0 then ls @ [c] else ls)"
      using r by (simp add: wrapLines_def Let_def)
    then show ?thesis using * r by auto
  qed
qed

text \<open>
  A cell as the hypothesis of the property has it, in a column that is at least 1 wide or
  wide enough for it: each of its wrapped lines can be drawn in the column.
\<close>

lemma wrapped_piece:
  assumes m: "lineModel E S" and k0: "0 \<le> k"
    and c: "cellOk E S val (Num k)"
    and fit: "1 \<le> k \<or> int (stringWidth E val) \<le> k"
    and p: "piece = [] \<or> piece \<in> set (wrapLines E val (Num k))"
  shows "styled S piece \<and> (int (stringWidth E piece) \<le> k \<or> (set piece \<subseteq> S \<and> 1 \<le> k))"
proof (cases "piece = []")
  case True
  then show ?thesis using k0 lm_Nil [OF m] by (simp add: styled_Nil)
next
  case False
  with p have pw: "piece \<in> set (wrapLines E val (Num k))" by simp
  show ?thesis
  proof (cases "set val \<subseteq> S \<and> 1 \<le> k")
    case True
    have "set piece \<subseteq> set (map (\<lambda>c. if c = NEWLINE then SPACE else c) val)"
      using wrapLines_set [of E val "Num k"] pw by blast
    also have "\<dots> \<subseteq> S" using True lm_S(3) [OF m] by auto
    finally have S: "set piece \<subseteq> S" .
    then show ?thesis using True lm_S(1) [OF m] by (simp add: styled_plain)
  next
    case other: False
    have s: "styled S val" using c lm_S(1) [OF m] by (auto simp: cellOk_def styled_plain)
    have f: "int (stringWidth E val) \<le> k" using c fit other by (auto simp: cellOk_def sw_def)
    from wrapLines_fit [OF m s f] pw show ?thesis by blast
  qed
qed

lemma wrappedRow_pieces:
  assumes "line \<in> set (wrappedRow E numeric ws vals)"
  shows "\<exists>pieces. line = cellsLine E numeric ws pieces \<and> length pieces = length vals \<and>
           (\<forall>i < length vals. pieces ! i = [] \<or> pieces ! i \<in> set (wrapLines E (vals ! i) (ws ! i)))"
proof -
  let ?wrapped = "map (\<lambda>i. wrapLines E (vals ! i) (ws ! i)) [0..<length vals]"
  from assms obtain lineIdx where
    l: "line = cellsLine E numeric ws
                 (map (\<lambda>cellLines. if lineIdx < length cellLines then cellLines ! lineIdx else []) ?wrapped)"
    by (auto simp: wrappedRow_def Let_def)
  let ?pieces = "map (\<lambda>cellLines. if lineIdx < length cellLines then cellLines ! lineIdx else []) ?wrapped"
  have "length ?pieces = length vals" by simp
  moreover have "\<forall>i < length vals. ?pieces ! i = [] \<or> ?pieces ! i \<in> set (wrapLines E (vals ! i) (ws ! i))"
    by simp
  ultimately show ?thesis using l by blast
qed

lemma wrappedRow_wide:
  assumes m: "lineModel E S" and nn: "\<forall>k \<in> set ks. 0 \<le> k" and len: "length vals = length ks"
    and ok: "\<forall>i < length ks. cellOk E S (vals ! i) (Num (ks ! i)) \<and>
               (1 \<le> ks ! i \<or> int (stringWidth E (vals ! i)) \<le> ks ! i)"
  shows "\<forall>line \<in> set (wrappedRow E numeric (map Num ks) vals). wide E S line (boxWidth ks)"
proof
  fix line assume "line \<in> set (wrappedRow E numeric (map Num ks) vals)"
  from wrappedRow_pieces [OF this] obtain pieces where
    p: "line = cellsLine E numeric (map Num ks) pieces" and l: "length pieces = length vals"
    and w: "\<forall>i < length vals. pieces ! i = [] \<or> pieces ! i \<in> set (wrapLines E (vals ! i) (map Num ks ! i))"
    by blast
  have "\<forall>i < length ks. styled S (pieces ! i) \<and>
          (int (stringWidth E (pieces ! i)) \<le> ks ! i \<or> (set (pieces ! i) \<subseteq> S \<and> 1 \<le> ks ! i))"
  proof (intro allI impI)
    fix i assume i: "i < length ks"
    then have k0: "0 \<le> ks ! i" using nn by simp
    from ok i have c: "cellOk E S (vals ! i) (Num (ks ! i))"
      and fit: "1 \<le> ks ! i \<or> int (stringWidth E (vals ! i)) \<le> ks ! i" by simp_all
    from w i len have "pieces ! i = [] \<or> pieces ! i \<in> set (wrapLines E (vals ! i) (Num (ks ! i)))" by simp
    from wrapped_piece [OF m k0 c fit this]
    show "styled S (pieces ! i) \<and>
          (int (stringWidth E (pieces ! i)) \<le> ks ! i \<or> (set (pieces ! i) \<subseteq> S \<and> 1 \<le> ks ! i))" .
  qed
  moreover from l len have "length pieces = length ks" by simp
  ultimately show "wide E S line (boxWidth ks)" unfolding p by (intro cellsLine_wide [OF m])
qed

text \<open>A cell that is not wrapped can be drawn in its column.\<close>

lemma cell_drawn:
  assumes m: "lineModel E S" and c: "cellOk E S val (Num k)"
    and fit: "1 \<le> k \<or> int (stringWidth E val) \<le> k"
  shows "styled S val \<and> (int (stringWidth E val) \<le> k \<or> (set val \<subseteq> S \<and> 1 \<le> k))"
  using c fit lm_S(1) [OF m] by (auto simp: cellOk_def sw_def styled_plain)

lemma bodyLines_wide:
  fixes L :: layout
  assumes m: "lineModel E S" and ws: "lWidths L = map Num ks" and nn: "\<forall>k \<in> set ks. 0 \<le> k"
    and rows: "\<forall>r \<in> set (lRows L). length r = length ks \<and>
                 (\<forall>i < length ks. cellOk E S (r ! i) (Num (ks ! i)) \<and>
                    (1 \<le> ks ! i \<or> int (stringWidth E (r ! i)) \<le> ks ! i))"
  shows "\<forall>line \<in> set (bodyLines E opts L). wide E S line (boxWidth ks)"
proof (cases "fullContent opts")
  case False
  show ?thesis
  proof
    fix line assume "line \<in> set (bodyLines E opts L)"
    then obtain r where r: "r \<in> set (lRows L)" and l: "line = cellsLine E (lIsNumeric L) (map Num ks) r"
      using False by (auto simp: bodyLines_def ws)
    from r rows have len: "length r = length ks"
      and ok: "\<forall>i < length ks. cellOk E S (r ! i) (Num (ks ! i)) \<and>
                    (1 \<le> ks ! i \<or> int (stringWidth E (r ! i)) \<le> ks ! i)" by simp_all
    have "\<forall>i < length ks. styled S (r ! i) \<and>
            (int (stringWidth E (r ! i)) \<le> ks ! i \<or> (set (r ! i) \<subseteq> S \<and> 1 \<le> ks ! i))"
      using ok cell_drawn [OF m] by blast
    from cellsLine_wide [OF m len this] l show "wide E S line (boxWidth ks)" by simp
  qed
next
  case True
  show ?thesis
  proof
    fix line assume "line \<in> set (bodyLines E opts L)"
    then have l: "(\<exists>i < length (lRows L). line \<in> set (wrappedRow E (lIsNumeric L) (map Num ks) (lRows L ! i)))
                  \<or> line = separatorText E (map Num ks)"
      using True by (auto simp: bodyLines_def ws split: if_splits)
    show "wide E S line (boxWidth ks)"
    proof (cases "line = separatorText E (map Num ks)")
      case True
      then show ?thesis using separatorText_wide [OF m nn] by simp
    next
      case False
      with l obtain i where i: "i < length (lRows L)"
        and w: "line \<in> set (wrappedRow E (lIsNumeric L) (map Num ks) (lRows L ! i))" by blast
      from i have "lRows L ! i \<in> set (lRows L)" by simp
      with rows True have "length (lRows L ! i) = length ks"
        and "\<forall>j < length ks. cellOk E S (lRows L ! i ! j) (Num (ks ! j)) \<and>
               (1 \<le> ks ! j \<or> int (stringWidth E (lRows L ! i ! j)) \<le> ks ! j)" by auto
      from wrappedRow_wide [OF m nn this] w show ?thesis by blast
    qed
  qed
qed

section \<open>The box of a table\<close>

text \<open>
  What the layout gives the drawing, under the conditions of the property: the widths are
  numbers that are not negative, each cell fits its column or the column is at least 1 wide,
  a trailer has an inner width of at least 1, the title leaves room for the corner, and the
  box fits in the terminal.
\<close>

lemma layout_box:
  fixes E opts rowCount displayRows allColumns
  defines "L \<equiv> tableLayout E opts rowCount displayRows allColumns"
  defines "natural \<equiv> naturalWidths E allColumns (map (formatRow E allColumns) displayRows)"
  assumes t7: "7 \<le> getTerminalWidth E"
    and title: "hasTitle (title opts) \<longrightarrow>
                  int (stringWidth E (the (title opts))) \<le> (if lColumns L = [] then 0 else getTerminalWidth E - 4)"
    and info: "lInfoText L \<noteq> [] \<longrightarrow>
                 lColumns L \<noteq> [] \<and> (hasTitle (title opts) \<or> 2 \<le> length (lColumns L) \<or> 0 < hd natural)"
  shows "\<exists>ks inner.
           lWidths L = map Num ks \<and> (\<forall>k \<in> set ks. 0 \<le> k) \<and> length (lColumns L) = length ks \<and>
           (\<forall>i < length ks. 1 \<le> ks ! i \<or> int (stringWidth E (lColumns L ! i)) \<le> ks ! i) \<and>
           (\<forall>r \<in> set (lRows L). length r = length ks \<and>
              (\<forall>i < length ks. 1 \<le> ks ! i \<or> int (stringWidth E (r ! i)) \<le> ks ! i)) \<and>
           lInnerWidth L = Num inner \<and> lTotalInnerWidth L = Num (inner + 2) \<and>
           (lInfoText L \<noteq> [] \<longrightarrow> 1 \<le> inner \<and> boxWidth ks = inner + 4) \<and>
           (hasTitle (title opts) \<longrightarrow> int (stringWidth E (the (title opts))) + 4 \<le> boxWidth ks) \<and>
           boxWidth ks \<le> getTerminalWidth E"
proof (cases "allColumns = []")
  case True
  from layout_no_column [OF t7, of opts rowCount displayRows] obtain inner where
    w: "lWidths L = []" and c: "lColumns L = []" and r: "lRows L = map (\<lambda>r. []) displayRows"
    and i: "lInnerWidth L = Num inner" and ti: "lTotalInnerWidth L = Num (inner + 2)"
    unfolding L_def True by blast
  from info c have noinfo: "lInfoText L = []" by blast
  from title c have "hasTitle (title opts) \<longrightarrow> int (stringWidth E (the (title opts))) + 4 \<le> boxWidth []"
    by (simp add: boxWidth_def)
  moreover have "boxWidth [] \<le> getTerminalWidth E" using t7 by (simp add: boxWidth_def)
  moreover have "lWidths L = map Num []" using w by simp
  moreover have "\<forall>r \<in> set (lRows L). length r = length ([] :: int list) \<and>
              (\<forall>i < length ([] :: int list). 1 \<le> [] ! i \<or> int (stringWidth E (r ! i)) \<le> [] ! i)"
    unfolding r by simp
  ultimately show ?thesis using c i ti noinfo
    by (intro exI [of _ "[]"] exI [of _ inner]) simp
next
  case False
  let ?frs = "map (formatRow E allColumns) displayRows"
  have fl: "\<forall>f \<in> set ?frs. length f = length allColumns" by (auto simp: formatRow_length)
  from layout_exact [OF t7 False, of opts rowCount displayRows]
  obtain ks inner where
    ws: "lWidths L = map Num ks" and nek: "ks \<noteq> []" and lka: "length ks \<le> length allColumns"
    and nn: "\<forall>k \<in> set ks. 0 \<le> k"
    and fitk: "\<forall>i < length ks. 1 \<le> ks ! i \<or> natural ! i \<le> ks ! i"
    and iL: "lInnerWidth L = Num inner" and tL: "lTotalInnerWidth L = Num (inner + 2)"
    and box: "boxWidth ks = inner + 4" and it: "inner \<le> getTerminalWidth E - 4"
    and i1: "hasTitle (title opts) \<or> 2 \<le> length ks \<or> 0 < natural ! 0 \<longrightarrow> 1 \<le> inner"
    and ti: "hasTitle (title opts) \<longrightarrow>
              min (int (stringWidth E (the (title opts))) + 4) (getTerminalWidth E - 4) \<le> inner"
    and lc: "lColumns L = take (length ks) allColumns"
    and lr: "lRows L = map (take (length ks)) ?frs"
    unfolding L_def natural_def by blast
  have lcl: "length (lColumns L) = length ks" using lc lka by simp
  have cne: "lColumns L \<noteq> []" using lcl nek by auto
  have nat0: "natural \<noteq> []"
    using naturalWidths_spec(1) [OF fl, of E] False by (auto simp: natural_def)
  have head: "\<forall>i < length ks. 1 \<le> ks ! i \<or> int (stringWidth E (lColumns L ! i)) \<le> ks ! i"
  proof (intro allI impI)
    fix i assume i: "i < length ks"
    then have il: "i < length allColumns" using lka by simp
    from naturalWidths_spec(2) [OF fl il, of E]
    have "int (stringWidth E (allColumns ! i)) \<le> natural ! i" by (simp add: natural_def)
    moreover have "lColumns L ! i = allColumns ! i" using lc i by simp
    ultimately show "1 \<le> ks ! i \<or> int (stringWidth E (lColumns L ! i)) \<le> ks ! i"
      using fitk i by force
  qed
  have rows: "\<forall>r \<in> set (lRows L). length r = length ks \<and>
              (\<forall>i < length ks. 1 \<le> ks ! i \<or> int (stringWidth E (r ! i)) \<le> ks ! i)"
  proof
    fix r assume "r \<in> set (lRows L)"
    then obtain dr where dr: "dr \<in> set displayRows" and r: "r = take (length ks) (formatRow E allColumns dr)"
      unfolding lr by auto
    have f: "formatRow E allColumns dr \<in> set ?frs" using dr by simp
    have len: "length r = length ks" using r lka by (simp add: formatRow_length)
    have fit: "\<forall>i < length ks. 1 \<le> ks ! i \<or> int (stringWidth E (r ! i)) \<le> ks ! i"
    proof (intro allI impI)
      fix i assume i: "i < length ks"
      then have il: "i < length allColumns" using lka by simp
      from naturalWidths_spec(3) [OF fl il f, of E]
      have "int (stringWidth E (formatRow E allColumns dr ! i)) \<le> natural ! i" by (simp add: natural_def)
      moreover have "r ! i = formatRow E allColumns dr ! i" using r i by simp
      ultimately show "1 \<le> ks ! i \<or> int (stringWidth E (r ! i)) \<le> ks ! i"
        using fitk i by force
    qed
    with len show "length r = length ks \<and>
              (\<forall>i < length ks. 1 \<le> ks ! i \<or> int (stringWidth E (r ! i)) \<le> ks ! i)" by blast
  qed
  have inf: "lInfoText L \<noteq> [] \<longrightarrow> 1 \<le> inner \<and> boxWidth ks = inner + 4"
  proof
    assume "lInfoText L \<noteq> []"
    with info have "hasTitle (title opts) \<or> 2 \<le> length (lColumns L) \<or> 0 < hd natural" by blast
    then have "hasTitle (title opts) \<or> 2 \<le> length ks \<or> 0 < natural ! 0"
      using lcl nat0 by (simp add: hd_conv_nth)
    with i1 box show "1 \<le> inner \<and> boxWidth ks = inner + 4" by blast
  qed
  have tfit: "hasTitle (title opts) \<longrightarrow> int (stringWidth E (the (title opts))) + 4 \<le> boxWidth ks"
  proof
    assume t: "hasTitle (title opts)"
    with title cne have "int (stringWidth E (the (title opts))) \<le> getTerminalWidth E - 4" by simp
    with ti t have "int (stringWidth E (the (title opts))) \<le> inner" by (simp add: min_def split: if_splits)
    then show "int (stringWidth E (the (title opts))) + 4 \<le> boxWidth ks" using box by simp
  qed
  have bt: "boxWidth ks \<le> getTerminalWidth E" using box it by simp
  from ws nn lcl head rows iL tL inf tfit bt show ?thesis by blast
qed

text \<open>The lines of an empty table.\<close>

lemma emptyTable_lines:
  assumes m: "lineModel E S" and st: "hasTitle (title opts) \<longrightarrow> styled S (the (title opts))"
    and short: "hasTitle (title opts) \<longrightarrow> stringWidth E (the (title opts)) < 7"
  shows "snd (run (emptyTable E opts)) = None \<and>
         (\<forall>line \<in> set (fst (run (emptyTable E opts))).
            wide E S line (if hasTitle (title opts) then 11 else 7))"
proof -
  have "wide E S (js ''(empty)'') (int (length (js ''(empty)'')))"
    by (rule wide_ascii [OF m]) (simp add: js_simps)
  then have e: "wide E S (js ''(empty)'') 7" by (simp add: js_simps)
  then have e7: "stringWidth E (js ''(empty)'') = 7" by (simp add: wide_def)
  show ?thesis
  proof (cases "hasTitle (title opts)")
    case False
    then show ?thesis using e by (simp add: emptyTable_def)
  next
    case True
    define t where "t = the (title opts)"
    define k where "k = 6 - stringWidth E t"
    have tw: "stringWidth E t < 7" using short True by (simp add: t_def)
    have s: "styled S t" using st True by (simp add: t_def)
    note tdw = titleDisplay_wide [OF m s]
    then have td: "stringWidth E ([SPACE] @ t @ [SPACE]) = stringWidth E t + 2" by (simp add: wide_def)
    let ?l1 = "dim E @ [BOX_topLeft, BOX_horizontal] @ reset E @ bold E @ ([SPACE] @ t @ [SPACE])
               @ reset E @ dim E @ (replicate k BOX_horizontal @ [BOX_topRight]) @ reset E"
    let ?l2 = "framed E (js ''(empty)'')"
    let ?l3 = "dim E @ [BOX_bottomLeft] @ replicate 9 BOX_horizontal @ [BOX_bottomRight] @ reset E"
    have r1: "repeat [BOX_horizontal] (Num (max 0 (max 7 (int (stringWidth E t)) + 2
                  - int (stringWidth E ([SPACE] @ t @ [SPACE])) - 1)))
              = Inr (replicate k BOX_horizontal)"
      using tw unfolding td by (simp add: repeat_def concat_replicate_single k_def nat_diff_distrib)
    have r3: "repeat [BOX_horizontal] (Num (max 7 (int (stringWidth E t)) + 2))
              = Inr (replicate 9 BOX_horizontal)"
      using tw by (simp add: repeat_def concat_replicate_single max_def)
    have p: "padRight E (js ''(empty)'') (Num (max 7 (int (stringWidth E t)))) = js ''(empty)''"
      using tw e7 by (simp add: padRight_def ge_num_def sw_def max_def)
    have eq: "emptyTable E opts = [Inr ?l1, Inr ?l2, Inr ?l3]"
      using True r1 r3 p by (simp add: emptyTable_def Let_def t_def [symmetric] e7 framed_def)
    have g1: "set [BOX_topLeft, BOX_horizontal] \<subseteq> set boxGlyphs" by (simp add: boxGlyphs_def)
    have g2: "set (replicate k BOX_horizontal @ [BOX_topRight]) \<subseteq> set boxGlyphs"
      by (auto simp: boxGlyphs_def)
    have "wide E S ?l1 (0 + (int (length [BOX_topLeft, BOX_horizontal]) + (0 + (0 + ((int (stringWidth E t) + 2)
             + (0 + (0 + (int (length (replicate k BOX_horizontal @ [BOX_topRight])) + 0))))))))"
      by (intro wide_append [OF m] wide_style [OF m] wide_glyphs [OF m g1] wide_glyphs [OF m g2] tdw)
    then have w1: "wide E S ?l1 11" using tw by (simp add: k_def)
    have "wide E S ?l2 (7 + 4)" by (rule framed_wide [OF m e])
    then have w2: "wide E S ?l2 11" by simp
    have "set ([BOX_bottomLeft] @ replicate 9 BOX_horizontal @ [BOX_bottomRight]) \<subseteq> set boxGlyphs"
      by (auto simp: boxGlyphs_def)
    from wide_dimmed [OF m this] have w3: "wide E S ?l3 11" by simp
    show ?thesis unfolding eq using True w1 w2 w3 by simp
  qed
qed

lemma displayRowsOf_Nil: "displayRowsOf opts [] = []"
  by (simp add: displayRowsOf_def sliceTo_def Let_def split: option.splits maxrows.splits)

lemma displayRowsOf_rows: "displayRowsOf opts rows \<noteq> [] \<Longrightarrow> rows \<noteq> []"
  using displayRowsOf_Nil by auto

lemma printed_error:
  assumes "rows \<noteq> []" and d: "displayRowsOf opts rows = first # others"
    and L: "L = tableLayout E opts (length rows) (first # others) (map fst first)"
  shows "snd (printTable E rows opts) =
         snd (run (trailer E (lInfoText L) (lInnerWidth L) (lTotalInnerWidth L) (lWidths L)))"
proof -
  have dr: "list_all drawable (lWidths L)" unfolding L by (rule layout_drawable)
  show ?thesis
    unfolding printTable_drawn [OF assms(1) d] L [symmetric] drawTable_drawable [OF dr] run_Inr
    by simp
qed

lemma layoutOf_rows:
  "displayRowsOf opts rows = first # others \<Longrightarrow>
   layoutOf E opts rows = tableLayout E opts (length rows) (first # others) (map fst first)"
  by (simp add: layoutOf_def)

lemma colWidthsOf_rows:
  "displayRowsOf opts rows = first # others \<Longrightarrow>
   colWidthsOf E opts rows =
     naturalWidths E (map fst first) (map (formatRow E (map fst first)) (first # others))"
  by (simp add: colWidthsOf_def Let_def)

lemma layout_info_ascii:
  "\<forall>c \<in> set (lInfoText (tableLayout E opts rowCount displayRows allColumns)). 32 \<le> c \<and> c \<le> 126"
  unfolding tableLayout_fields(8) by (rule ascii_infoText)

text \<open>The lines of a table with at least one displayed row.\<close>

lemma table_lines:
  fixes E opts rows first others
  defines "L \<equiv> tableLayout E opts (length rows) (first # others) (map fst first)"
  assumes m: "lineModel E S" and d: "displayRowsOf opts rows = first # others"
    and t7: "7 \<le> getTerminalWidth E"
    and st: "hasTitle (title opts) \<longrightarrow> styled S (the (title opts))"
    and names: "list_all2 (cellOk E S) (lColumns L) (lWidths L)"
    and cells: "list_all (\<lambda>r. list_all2 (cellOk E S) r (lWidths L)) (lRows L)"
    and title: "hasTitle (title opts) \<longrightarrow>
                  int (stringWidth E (the (title opts))) \<le> (if lColumns L = [] then 0 else getTerminalWidth E - 4)"
    and info: "lInfoText L \<noteq> [] \<longrightarrow>
                 lColumns L \<noteq> [] \<and>
                 (hasTitle (title opts) \<or> 2 \<le> length (lColumns L) \<or>
                  0 < hd (naturalWidths E (map fst first) (map (formatRow E (map fst first)) (first # others))))"
  shows "snd (printTable E rows opts) = None \<and>
         (\<exists>W. W \<le> getTerminalWidth E \<and>
            (\<forall>line \<in> set (fst (printTable E rows opts)). wide E S line W))"
proof -
  from d have ne: "rows \<noteq> []" using displayRowsOf_rows [of opts rows] by simp
  have Leq: "L = tableLayout E opts (length rows) (first # others) (map fst first)" by (simp add: L_def)
  from layout_box [OF t7, of opts "length rows" "first # others" "map fst first"] title info
  obtain ks inner where
    ws: "lWidths L = map Num ks" and nn: "\<forall>k \<in> set ks. 0 \<le> k"
    and lc: "length (lColumns L) = length ks"
    and head: "\<forall>i < length ks. 1 \<le> ks ! i \<or> int (stringWidth E (lColumns L ! i)) \<le> ks ! i"
    and rows: "\<forall>r \<in> set (lRows L). length r = length ks \<and>
              (\<forall>i < length ks. 1 \<le> ks ! i \<or> int (stringWidth E (r ! i)) \<le> ks ! i)"
    and iL: "lInnerWidth L = Num inner" and tL: "lTotalInnerWidth L = Num (inner + 2)"
    and inf: "lInfoText L \<noteq> [] \<longrightarrow> 1 \<le> inner \<and> boxWidth ks = inner + 4"
    and tfit: "hasTitle (title opts) \<longrightarrow> int (stringWidth E (the (title opts))) + 4 \<le> boxWidth ks"
    and bt: "boxWidth ks \<le> getTerminalWidth E"
    unfolding L_def by blast
  have top: "wide E S (topText E (title opts) (lWidths L)) (boxWidth ks)"
    unfolding ws by (rule topText_wide [OF m nn st tfit])
  have "\<forall>i < length ks. styled S (lColumns L ! i) \<and>
          (int (stringWidth E (lColumns L ! i)) \<le> ks ! i \<or> (set (lColumns L ! i) \<subseteq> S \<and> 1 \<le> ks ! i))"
  proof (intro allI impI)
    fix i assume i: "i < length ks"
    with names lc have "cellOk E S (lColumns L ! i) (Num (ks ! i))"
      unfolding ws by (auto dest: list_all2_nthD)
    from cell_drawn [OF m this] head i
    show "styled S (lColumns L ! i) \<and>
          (int (stringWidth E (lColumns L ! i)) \<le> ks ! i \<or> (set (lColumns L ! i) \<subseteq> S \<and> 1 \<le> ks ! i))"
      by blast
  qed
  then have header: "wide E S (cellsLine E (lIsNumeric L) (lWidths L) (lColumns L)) (boxWidth ks)"
    unfolding ws by (intro cellsLine_wide [OF m lc])
  have sep: "wide E S (separatorText E (lWidths L)) (boxWidth ks)"
    unfolding ws by (rule separatorText_wide [OF m nn])
  have "\<forall>r \<in> set (lRows L). length r = length ks \<and>
          (\<forall>i < length ks. cellOk E S (r ! i) (Num (ks ! i)) \<and>
             (1 \<le> ks ! i \<or> int (stringWidth E (r ! i)) \<le> ks ! i))"
  proof
    fix r assume r: "r \<in> set (lRows L)"
    with rows have len: "length r = length ks"
      and fit: "\<forall>i < length ks. 1 \<le> ks ! i \<or> int (stringWidth E (r ! i)) \<le> ks ! i" by simp_all
    from cells r have "list_all2 (cellOk E S) r (map Num ks)"
      unfolding ws by (simp add: list_all_iff)
    then have "\<forall>i < length ks. cellOk E S (r ! i) (Num (ks ! i))"
      using len by (auto dest: list_all2_nthD)
    with len fit show "length r = length ks \<and>
          (\<forall>i < length ks. cellOk E S (r ! i) (Num (ks ! i)) \<and>
             (1 \<le> ks ! i \<or> int (stringWidth E (r ! i)) \<le> ks ! i))" by blast
  qed
  then have body: "\<forall>line \<in> set (bodyLines E opts L). wide E S line (boxWidth ks)"
    by (rule bodyLines_wide [OF m ws nn])
  have "\<forall>c \<in> set (lInfoText L). 32 \<le> c \<and> c \<le> 126" unfolding L_def by (rule layout_info_ascii)
  from trailer_wide [OF m ws nn iL tL inf this]
  have tr: "snd (run (trailer E (lInfoText L) (lInnerWidth L) (lTotalInnerWidth L) (lWidths L))) = None"
    and trl: "\<forall>line \<in> set (fst (run (trailer E (lInfoText L) (lInnerWidth L) (lTotalInnerWidth L) (lWidths L)))).
                wide E S line (boxWidth ks)" by simp_all
  have e: "snd (printTable E rows opts) = None"
    unfolding printed_error [OF ne d Leq] by (rule tr)
  have "\<forall>line \<in> set (fst (printTable E rows opts)). wide E S line (boxWidth ks)"
    unfolding printed_lines [OF ne d Leq]
    using top header sep body trl by auto
  with e bt show ?thesis by blast
qed

section \<open>Runtimes that meet the assumptions\<close>

text \<open>
  The escape-aware width adds up over styled texts: a styled text ends outside any
  sequence, so what follows it is measured on its own.
\<close>

lemma scan_styled:
  "27 \<notin> S \<Longrightarrow> styledFrom S st a \<Longrightarrow> ansiScan st (a @ b) = ansiScan st a + ansiScan Normal b"
  by (induction a arbitrary: st) (auto split: scan.splits if_splits)

lemma glyph_plain: "g \<in> set boxGlyphs \<Longrightarrow> g \<noteq> 27 \<and> g \<noteq> NEWLINE \<and> charWidth g = 1"
  by (auto simp: boxGlyphs_def charWidth_def NEWLINE_def BOX_topLeft_def BOX_topRight_def
        BOX_bottomLeft_def BOX_bottomRight_def BOX_horizontal_def BOX_vertical_def BOX_headerLeft_def
        BOX_headerRight_def BOX_headerCross_def BOX_topCross_def BOX_bottomCross_def)

lemma colour_style: "dim (colourRuntime c) = DIM" "reset (colourRuntime c) = RESET"
  "bold (colourRuntime c) = BOLD" "stringWidth (colourRuntime c) = ansiWidth"
  by (simp_all add: colourRuntime_def dim_def reset_def bold_def)

lemma colour_lineModel: "lineModel (colourRuntime c) {u. u \<noteq> 27 \<and> u \<noteq> NEWLINE}"
proof -
  let ?S = "{u. u \<noteq> 27 \<and> u \<noteq> NEWLINE}"
  have a: "\<forall>u. 32 \<le> u \<and> u \<le> 126 \<longrightarrow> u \<in> ?S \<and> ansiWidth [u] = 1"
    by (auto simp: NEWLINE_def ansiWidth_def charWidth_def)
  have g: "list_all (\<lambda>u. u \<in> ?S \<and> ansiWidth [u] = 1) (ELLIPSIS # boxGlyphs)"
    using glyph_plain by (auto simp: list_all_iff ansiWidth_def ELLIPSIS_def NEWLINE_def charWidth_def)
  have s: "ansiWidth DIM = 0" "ansiWidth RESET = 0" "ansiWidth BOLD = 0"
    by (simp_all add: ansiWidth_def DIM_def RESET_def BOLD_def js_simps)
  have "\<forall>a b. styled ?S a \<and> styled ?S b \<longrightarrow> ansiWidth (a @ b) = ansiWidth a + ansiWidth b"
    using scan_styled [of ?S Normal] by (simp add: styled_def ansiWidth_def)
  with a g s show ?thesis by (simp add: lineModel_def colour_style)
qed

lemma plain_lineModel: "lineModel (plainRuntime c) {u. u \<noteq> 27 \<and> u \<noteq> NEWLINE}"
proof -
  let ?S = "{u. u \<noteq> 27 \<and> u \<noteq> NEWLINE}"
  have a: "\<forall>u. 32 \<le> u \<and> u \<le> 126 \<longrightarrow> u \<in> ?S \<and> plainWidth [u] = 1"
    by (auto simp: NEWLINE_def plainWidth_def charWidth_def)
  have g: "list_all (\<lambda>u. u \<in> ?S \<and> plainWidth [u] = 1) (ELLIPSIS # boxGlyphs)"
    using glyph_plain by (auto simp: list_all_iff plainWidth_def ELLIPSIS_def NEWLINE_def charWidth_def)
  from a g show ?thesis
    by (simp add: lineModel_def plainRuntime_def dim_def reset_def bold_def plain_additive)
       (simp add: plainWidth_def)
qed

text \<open>
  C1, as the code has it. Let the display width meet \<open>lineModel\<close> for a set \<open>S\<close> of code
  units, with colour on or off, and let the title, if there is one, be a styled text. Then
  \<open>printTable\<close> does not throw, every line it logs is a styled text of one and the same
  display width, which is at most the terminal width, and no logged line holds a line
  break, under these conditions. For an empty row list: there is no title and the terminal
  is at least 7 columns wide, or the title is narrower than 7 columns, the width of
  \<open>(empty)\<close>, and the terminal at least 11 wide. For other row lists: at least one row is
  displayed; the terminal is at least 7 columns wide; every visible column name and every
  displayed cell is made of code units of \<open>S\<close>, or is a styled text that is not wider than
  its column; the title is at most \<open>terminalWidth - 4\<close> wide (and has no width when the
  table has no column); and when a trailer is drawn, the table has a column and has a
  title, or two visible columns, or a first column of positive natural width.
\<close>

theorem printTable_rectangular:
  "lineModel E S \<and>
   (hasTitle (title opts) \<longrightarrow> styled S (the (title opts))) \<and>
   (if rows = []
    then (if hasTitle (title opts)
          then stringWidth E (the (title opts)) < 7 \<and> 11 \<le> getTerminalWidth E
          else 7 \<le> getTerminalWidth E)
    else displayRowsOf opts rows \<noteq> [] \<and> 7 \<le> getTerminalWidth E \<and>
         list_all2 (cellOk E S) (lColumns (layoutOf E opts rows)) (lWidths (layoutOf E opts rows)) \<and>
         list_all (\<lambda>r. list_all2 (cellOk E S) r (lWidths (layoutOf E opts rows)))
           (lRows (layoutOf E opts rows)) \<and>
         (hasTitle (title opts) \<longrightarrow>
            int (stringWidth E (the (title opts)))
              \<le> (if lColumns (layoutOf E opts rows) = [] then 0 else getTerminalWidth E - 4)) \<and>
         (lInfoText (layoutOf E opts rows) \<noteq> [] \<longrightarrow>
            lColumns (layoutOf E opts rows) \<noteq> [] \<and>
            (hasTitle (title opts) \<or> 2 \<le> length (lColumns (layoutOf E opts rows)) \<or>
             0 < hd (colWidthsOf E opts rows))))
   \<longrightarrow>
   snd (printTable E rows opts) = None \<and>
   (\<exists>W. W \<le> getTerminalWidth E \<and>
        list_all (\<lambda>line. styled S line \<and> int (stringWidth E line) = W \<and> NEWLINE \<notin> set line)
          (fst (printTable E rows opts)))"
proof (intro impI, elim conjE)
  assume m: "lineModel E S"
    and st: "hasTitle (title opts) \<longrightarrow> styled S (the (title opts))"
    and c: "if rows = []
    then (if hasTitle (title opts)
          then stringWidth E (the (title opts)) < 7 \<and> 11 \<le> getTerminalWidth E
          else 7 \<le> getTerminalWidth E)
    else displayRowsOf opts rows \<noteq> [] \<and> 7 \<le> getTerminalWidth E \<and>
         list_all2 (cellOk E S) (lColumns (layoutOf E opts rows)) (lWidths (layoutOf E opts rows)) \<and>
         list_all (\<lambda>r. list_all2 (cellOk E S) r (lWidths (layoutOf E opts rows)))
           (lRows (layoutOf E opts rows)) \<and>
         (hasTitle (title opts) \<longrightarrow>
            int (stringWidth E (the (title opts)))
              \<le> (if lColumns (layoutOf E opts rows) = [] then 0 else getTerminalWidth E - 4)) \<and>
         (lInfoText (layoutOf E opts rows) \<noteq> [] \<longrightarrow>
            lColumns (layoutOf E opts rows) \<noteq> [] \<and>
            (hasTitle (title opts) \<or> 2 \<le> length (lColumns (layoutOf E opts rows)) \<or>
             0 < hd (colWidthsOf E opts rows)))"
  have "snd (printTable E rows opts) = None \<and>
         (\<exists>W. W \<le> getTerminalWidth E \<and>
            (\<forall>line \<in> set (fst (printTable E rows opts)). wide E S line W))"
  proof (cases "rows = []")
    case True
    with c have short: "hasTitle (title opts) \<longrightarrow> stringWidth E (the (title opts)) < 7"
      and fit: "(if hasTitle (title opts) then 11 else 7) \<le> getTerminalWidth E"
      by (simp_all split: if_splits)
    have p: "printTable E rows opts = run (emptyTable E opts)" using True by (simp add: printTable_def)
    from emptyTable_lines [OF m st short] fit show ?thesis unfolding p by blast
  next
    case False
    with c obtain first others where d: "displayRowsOf opts rows = first # others"
      by (cases "displayRowsOf opts rows") auto
    from c False have t7: "7 \<le> getTerminalWidth E" by simp
    note lo = layoutOf_rows [OF d, of E] and cw = colWidthsOf_rows [OF d, of E]
    from c False
    have names: "list_all2 (cellOk E S) (lColumns (layoutOf E opts rows)) (lWidths (layoutOf E opts rows))"
      and cells: "list_all (\<lambda>r. list_all2 (cellOk E S) r (lWidths (layoutOf E opts rows)))
                    (lRows (layoutOf E opts rows))"
      and title: "hasTitle (title opts) \<longrightarrow>
            int (stringWidth E (the (title opts)))
              \<le> (if lColumns (layoutOf E opts rows) = [] then 0 else getTerminalWidth E - 4)"
      and info: "lInfoText (layoutOf E opts rows) \<noteq> [] \<longrightarrow>
            lColumns (layoutOf E opts rows) \<noteq> [] \<and>
            (hasTitle (title opts) \<or> 2 \<le> length (lColumns (layoutOf E opts rows)) \<or>
             0 < hd (colWidthsOf E opts rows))"
      by simp_all
    show ?thesis
      by (rule table_lines [OF m d t7 st names [unfolded lo] cells [unfolded lo] title [unfolded lo]
            info [unfolded lo cw]])
  qed
  then obtain W where e: "snd (printTable E rows opts) = None" and W: "W \<le> getTerminalWidth E"
    and l: "\<forall>line \<in> set (fst (printTable E rows opts)). wide E S line W" by blast
  have "list_all (\<lambda>line. styled S line \<and> int (stringWidth E line) = W \<and> NEWLINE \<notin> set line)
          (fst (printTable E rows opts))"
    using l styled_nl [OF _ lm_S(2) [OF m]] by (auto simp: list_all_iff wide_def)
  with e W show "snd (printTable E rows opts) = None \<and>
   (\<exists>W. W \<le> getTerminalWidth E \<and>
        list_all (\<lambda>line. styled S line \<and> int (stringWidth E line) = W \<and> NEWLINE \<notin> set line)
          (fst (printTable E rows opts)))"
    by blast
qed

theorem printTable_rectangular_witness:
  "lineModel (colourRuntime 40) {u. u \<noteq> 27 \<and> u \<noteq> NEWLINE} \<and> enableANSIColors (colourRuntime 40) \<and>
   getTerminalWidth (colourRuntime 40) = 40 \<and>
   displayRowsOf (defaultOptions \<lparr> maxRows := Some (Rows 2), title := Some (js ''users'') \<rparr>)
     [[(js ''name'', VString (js ''alice'')), (js ''n'', VNumber 42)],
      [(js ''name'', VString (js ''bob'')), (js ''n'', VNull)],
      [(js ''name'', VString (js ''carol'')), (js ''n'', VNumber 7)]]
   = [[(js ''name'', VString (js ''alice'')), (js ''n'', VNumber 42)],
      [(js ''name'', VString (js ''bob'')), (js ''n'', VNull)]] \<and>
   lColumns (layoutOf (colourRuntime 40)
     (defaultOptions \<lparr> maxRows := Some (Rows 2), title := Some (js ''users'') \<rparr>)
     [[(js ''name'', VString (js ''alice'')), (js ''n'', VNumber 42)],
      [(js ''name'', VString (js ''bob'')), (js ''n'', VNull)],
      [(js ''name'', VString (js ''carol'')), (js ''n'', VNumber 7)]]) = [js ''name'', js ''n''] \<and>
   lWidths (layoutOf (colourRuntime 40)
     (defaultOptions \<lparr> maxRows := Some (Rows 2), title := Some (js ''users'') \<rparr>)
     [[(js ''name'', VString (js ''alice'')), (js ''n'', VNumber 42)],
      [(js ''name'', VString (js ''bob'')), (js ''n'', VNull)],
      [(js ''name'', VString (js ''carol'')), (js ''n'', VNumber 7)]]) = [Num 5, Num 4] \<and>
   lRows (layoutOf (colourRuntime 40)
     (defaultOptions \<lparr> maxRows := Some (Rows 2), title := Some (js ''users'') \<rparr>)
     [[(js ''name'', VString (js ''alice'')), (js ''n'', VNumber 42)],
      [(js ''name'', VString (js ''bob'')), (js ''n'', VNull)],
      [(js ''name'', VString (js ''carol'')), (js ''n'', VNumber 7)]])
   = [[js ''alice'', 27 # js ''[33m42'' @ 27 # js ''[39m''], [js ''bob'', DIM @ js ''NULL'' @ RESET]] \<and>
   lInfoText (layoutOf (colourRuntime 40)
     (defaultOptions \<lparr> maxRows := Some (Rows 2), title := Some (js ''users'') \<rparr>)
     [[(js ''name'', VString (js ''alice'')), (js ''n'', VNumber 42)],
      [(js ''name'', VString (js ''bob'')), (js ''n'', VNull)],
      [(js ''name'', VString (js ''carol'')), (js ''n'', VNumber 7)]]) = js ''... 1 more row'' \<and>
   snd (printTable (colourRuntime 40)
     [[(js ''name'', VString (js ''alice'')), (js ''n'', VNumber 42)],
      [(js ''name'', VString (js ''bob'')), (js ''n'', VNull)],
      [(js ''name'', VString (js ''carol'')), (js ''n'', VNumber 7)]]
     (defaultOptions \<lparr> maxRows := Some (Rows 2), title := Some (js ''users'') \<rparr>)) = None \<and>
   map (stringWidth (colourRuntime 40)) (fst (printTable (colourRuntime 40)
     [[(js ''name'', VString (js ''alice'')), (js ''n'', VNumber 42)],
      [(js ''name'', VString (js ''bob'')), (js ''n'', VNull)],
      [(js ''name'', VString (js ''carol'')), (js ''n'', VNumber 7)]]
     (defaultOptions \<lparr> maxRows := Some (Rows 2), title := Some (js ''users'') \<rparr>)))
   = [16, 16, 16, 16, 16, 16, 16] \<and>
   (\<exists>W. W \<le> getTerminalWidth (colourRuntime 40) \<and>
        list_all (\<lambda>line. styled {u. u \<noteq> 27 \<and> u \<noteq> NEWLINE} line \<and>
                    int (stringWidth (colourRuntime 40) line) = W \<and> NEWLINE \<notin> set line)
          (fst (printTable (colourRuntime 40)
     [[(js ''name'', VString (js ''alice'')), (js ''n'', VNumber 42)],
      [(js ''name'', VString (js ''bob'')), (js ''n'', VNull)],
      [(js ''name'', VString (js ''carol'')), (js ''n'', VNumber 7)]]
     (defaultOptions \<lparr> maxRows := Some (Rows 2), title := Some (js ''users'') \<rparr>))))"
proof -
  let ?E = "colourRuntime 40"
  let ?S = "{u. u \<noteq> 27 \<and> u \<noteq> NEWLINE}"
  let ?opts = "defaultOptions \<lparr> maxRows := Some (Rows 2), title := Some (js ''users'') \<rparr>"
  let ?rows = "[[(js ''name'', VString (js ''alice'')), (js ''n'', VNumber 42)],
      [(js ''name'', VString (js ''bob'')), (js ''n'', VNull)],
      [(js ''name'', VString (js ''carol'')), (js ''n'', VNumber 7)]]"
  have m: "lineModel ?E ?S" by (rule colour_lineModel)
  have col: "enableANSIColors ?E" by (simp add: colourRuntime_def)
  have t: "getTerminalWidth ?E = 40" by (simp add: colour_eval eval_all)
  have d: "displayRowsOf ?opts ?rows = [[(js ''name'', VString (js ''alice'')), (js ''n'', VNumber 42)],
      [(js ''name'', VString (js ''bob'')), (js ''n'', VNull)]]" by (simp add: eval_all)
  have c: "lColumns (layoutOf ?E ?opts ?rows) = [js ''name'', js ''n'']"
    by (simp add: layoutOf_def colour_eval eval_all)
  have w: "lWidths (layoutOf ?E ?opts ?rows) = [Num 5, Num 4]"
    by (simp add: layoutOf_def colour_eval eval_all)
  have r: "lRows (layoutOf ?E ?opts ?rows)
           = [[js ''alice'', 27 # js ''[33m42'' @ 27 # js ''[39m''], [js ''bob'', DIM @ js ''NULL'' @ RESET]]"
    by (simp add: layoutOf_def colour_eval eval_all)
  have i: "lInfoText (layoutOf ?E ?opts ?rows) = js ''... 1 more row''"
    by (simp add: layoutOf_def colour_eval eval_all)
  have ti: "hasTitle (title ?opts)" "the (title ?opts) = js ''users''"
    "stringWidth ?E (js ''users'') = 5" "styled ?S (js ''users'')"
    by (simp_all add: colour_eval eval_all styled_def)
  have names: "list_all2 (cellOk ?E ?S) (lColumns (layoutOf ?E ?opts ?rows)) (lWidths (layoutOf ?E ?opts ?rows))"
    unfolding c w by (simp add: cellOk_def js_simps NEWLINE_def)
  have cells: "list_all (\<lambda>r. list_all2 (cellOk ?E ?S) r (lWidths (layoutOf ?E ?opts ?rows)))
                 (lRows (layoutOf ?E ?opts ?rows))"
    unfolding r w by (simp add: cellOk_def styled_def colour_eval string_eval)
  have ws: "map (stringWidth ?E) (fst (printTable ?E ?rows ?opts)) = [16, 16, 16, 16, 16, 16, 16]"
    by (simp add: colour_eval eval_all)
  from printTable_rectangular [of ?E ?S ?opts ?rows] m t d c ti names cells
  have "snd (printTable ?E ?rows ?opts) = None \<and>
   (\<exists>W. W \<le> getTerminalWidth ?E \<and>
        list_all (\<lambda>line. styled ?S line \<and> int (stringWidth ?E line) = W \<and> NEWLINE \<notin> set line)
          (fst (printTable ?E ?rows ?opts)))" by simp
  with m col t d c w r i ws show ?thesis by blast
qed

text \<open>
  C1 as stated fails. On a terminal of width 30 a title of 52 columns makes the top line
  56 columns wide, while the other lines are 30 wide. On a terminal of width 3 the lines of
  a table with the single column \<open>id\<close> are 7 columns wide.
\<close>

theorem long_title_counterexample:
  "getTerminalWidth (plainRuntime 30) = 30 \<and>
   map (stringWidth (plainRuntime 30))
     (fst (printTable (plainRuntime 30) [[(js ''x'', VNumber 1)]]
        (defaultOptions \<lparr> title := Some (js ''this_is_a_very_long_table_name_that_exceeds_terminal'') \<rparr>)))
   = [56, 30, 30, 30, 30] \<and>
   getTerminalWidth (plainRuntime 3) = 3 \<and>
   map (stringWidth (plainRuntime 3)) (fst (printTable (plainRuntime 3) (idRows [1]) defaultOptions))
   = [7, 7, 7, 7, 7]"
  by (simp add: eval_all)

text \<open>
  Outside these conditions the lines can differ. A table with one column of natural width 0
  and a trailer has a trailer line one column wider than its borders; so has a table
  without columns. The box of an empty table with a title of 7 columns has a top line one
  column wider than its other lines. A table without columns that has a title has a top
  line wider than the rest. A line break in a column name is logged as it is.
\<close>

lemma ragged_outputs:
  "map (stringWidth (plainRuntime 120))
     (fst (printTable (plainRuntime 120) [[([], VString [])], [([], VString [])]]
        (defaultOptions \<lparr> maxRows := Some (Rows 1) \<rparr>)))
   = [4, 4, 4, 4, 5, 4] \<and>
   map (stringWidth (plainRuntime 120))
     (fst (printTable (plainRuntime 120) [[], []] (defaultOptions \<lparr> maxRows := Some (Rows 1) \<rparr>)))
   = [4, 4, 4, 4, 5, 4] \<and>
   map (stringWidth (plainRuntime 120))
     (fst (printTable (plainRuntime 120) [] (defaultOptions \<lparr> title := Some (js ''1234567'') \<rparr>)))
   = [12, 11, 11] \<and>
   map (stringWidth (plainRuntime 120))
     (fst (printTable (plainRuntime 120) [[]] (defaultOptions \<lparr> title := Some (js ''t'') \<rparr>)))
   = [5, 4, 4, 4, 4] \<and>
   fst (printTable (plainRuntime 120) [[(js ''a'' @ [NEWLINE] @ js ''b'', VNumber 1)]] defaultOptions) ! 1
   = [BOX_vertical, SPACE] @ js ''a'' @ [NEWLINE] @ js ''b'' @ [SPACE, BOX_vertical]"
  by (simp add: eval_all)

text \<open>
  The property leaves out a text with an escape sequence that does not fit its column: what
  a text cut inside a sequence measures is the runtime's own. On the escape-aware width
  such a table keeps its lines equal: on a terminal of 7 columns the styled \<open>NULL\<close> of a
  column 3 wide is cut after two letters.
\<close>

lemma cut_styled_cell:
  "lWidths (layoutOf (colourRuntime 7) defaultOptions [[(js ''a'', VNull)]]) = [Num 3] \<and>
   fst (printTable (colourRuntime 7) [[(js ''a'', VNull)]] defaultOptions) ! 3
   = DIM @ [BOX_vertical] @ RESET @ [SPACE] @ DIM @ js ''NU'' @ [ELLIPSIS] @ RESET @ [SPACE]
     @ DIM @ [BOX_vertical] @ RESET \<and>
   map (stringWidth (colourRuntime 7)) (fst (printTable (colourRuntime 7) [[(js ''a'', VNull)]] defaultOptions))
   = [7, 7, 7, 7, 7]"
  by (simp add: layoutOf_def colour_eval eval_all)

end
